theory Spec2Isabelle
  imports Main "HOL-Library.While_Combinator" "HOL-Library.AList" "HOL-Library.Sublist"
begin

section \<open>Python values, errors and loops\<close>

text \<open>
  The search module works on Python strings, lists, dictionaries and unbounded
  integers. A string is modelled as a list over an arbitrary character type \<open>'a\<close>
  (the scanners only compare characters), an integer as \<open>int\<close>. A computation
  either returns a value, raises an exception, or runs forever.
\<close>

datatype py_error = IndexError | KeyError

datatype 'a outcome = Diverges | Raises py_error | Returns 'a

definition and_then :: "'a outcome \<Rightarrow> ('a \<Rightarrow> 'b outcome) \<Rightarrow> 'b outcome" where
  "and_then m f = (case m of Diverges \<Rightarrow> Diverges | Raises e \<Rightarrow> Raises e | Returns x \<Rightarrow> f x)"

text \<open>\<open>xs[i]\<close>: a negative index counts from the end, an index out of range raises.\<close>

definition py_index :: "'a list \<Rightarrow> int \<Rightarrow> 'a outcome" where
  "py_index xs i =
     (let n = int (length xs); j = (if i < 0 then n + i else i)
      in if 0 \<le> j \<and> j < n then Returns (xs ! nat j) else Raises IndexError)"

text \<open>\<open>xs[i] = v\<close> on a list.\<close>

definition py_store :: "'a list \<Rightarrow> int \<Rightarrow> 'a \<Rightarrow> 'a list outcome" where
  "py_store xs i v =
     (let n = int (length xs); j = (if i < 0 then n + i else i)
      in if 0 \<le> j \<and> j < n then Returns (xs[nat j := v]) else Raises IndexError)"

text \<open>\<open>d[k]\<close> on a dictionary: a missing key raises.\<close>

definition py_lookup :: "('k \<rightharpoonup> 'v) \<Rightarrow> 'k \<Rightarrow> 'v outcome" where
  "py_lookup d k = (case d k of None \<Rightarrow> Raises KeyError | Some v \<Rightarrow> Returns v)"

text \<open>\<open>xs[:c]\<close>: a negative bound drops that many entries from the end.\<close>

definition py_take :: "int \<Rightarrow> 'a list \<Rightarrow> 'a list" where
  "py_take c xs = (if 0 \<le> c then take (nat c) xs else take (length xs - nat (- c)) xs)"

text \<open>
  \<open>xs[i:j]\<close>: each bound is clamped into the list, a negative one counting from the
  end; a slice never raises.
\<close>

definition py_slice :: "'a list \<Rightarrow> int \<Rightarrow> int \<Rightarrow> 'a list" where
  "py_slice xs i j =
     (let n = int (length xs);
          lo = (if i < 0 then max 0 (n + i) else min i n);
          hi = (if j < 0 then max 0 (n + j) else min j n)
      in take (nat (hi - lo)) (drop (nat lo) xs))"

text \<open>\<open>for x in xs: body\<close> over a loop state, where the body may raise.\<close>

primrec for_each :: "('a \<Rightarrow> 's \<Rightarrow> 's outcome) \<Rightarrow> 'a list \<Rightarrow> 's \<Rightarrow> 's outcome" where
  "for_each f [] s = Returns s"
| "for_each f (x # xs) s = and_then (f x s) (for_each f xs)"

text \<open>
  \<open>while b: c\<close> over a loop state. The condition and the body may raise; the loop
  may run forever, which is \<open>Diverges\<close>.
\<close>

definition py_while :: "('s \<Rightarrow> bool outcome) \<Rightarrow> ('s \<Rightarrow> 's outcome) \<Rightarrow> 's \<Rightarrow> 's outcome" where
  "py_while b c s =
     (case while_option
             (\<lambda>r. case r of Returns t \<Rightarrow> b t = Returns True | _ \<Rightarrow> False)
             (\<lambda>r. case r of Returns t \<Rightarrow> c t | other \<Rightarrow> other)
             (Returns s) of
        None \<Rightarrow> Diverges
      | Some (Returns t) \<Rightarrow> and_then (b t) (\<lambda>_. Returns t)
      | Some other \<Rightarrow> other)"

section \<open>Prefix table\<close>

text \<open>
  \<open>compute_lps\<close>: the loop state is \<open>(length, lps, i)\<close>, with \<open>length\<close> spelled
  \<open>len\<close>; \<open>lps_step\<close> is the body of its loop.
\<close>

definition lps_step :: "'a list \<Rightarrow> int \<times> int list \<times> int \<Rightarrow> (int \<times> int list \<times> int) outcome" where
  "lps_step pattern = (\<lambda>(len, lps, i).
     and_then (py_index pattern i) (\<lambda>a.
     and_then (py_index pattern len) (\<lambda>b.
       if a = b then
         and_then (py_store lps i (len + 1)) (\<lambda>lps'. Returns (len + 1, lps', i + 1))
       else if len \<noteq> 0 then
         and_then (py_index lps (len - 1)) (\<lambda>l. Returns (l, lps, i))
       else
         and_then (py_store lps i 0) (\<lambda>lps'. Returns (len, lps', i + 1)))))"

definition compute_lps :: "'a list \<Rightarrow> int list outcome" where
  "compute_lps pattern =
     and_then
       (py_while (\<lambda>(len, lps, i). Returns (i < int (length pattern)))
          (lps_step pattern)
          (0, replicate (length pattern) 0, 1))
       (\<lambda>(len, lps, i). Returns lps)"

section \<open>Prefix-function scan\<close>

text \<open>
  \<open>kmp_search\<close>: the loop state is \<open>(matches, i, j)\<close>. \<open>kmp_step\<close> is the body of
  its loop: the first \<open>if\<close> advances both cursors on a matching character, and
  \<open>kmp_decide\<close> is the \<open>if\<close>/\<open>elif\<close> that follows it.
\<close>

definition kmp_decide ::
  "'a list \<Rightarrow> 'a list \<Rightarrow> int list \<Rightarrow> int list \<times> int \<times> int \<Rightarrow> (int list \<times> int \<times> int) outcome" where
  "kmp_decide text pattern lps = (\<lambda>(matches, i, j).
     if j = int (length pattern) then
       and_then (py_index lps (j - 1)) (\<lambda>l. Returns (matches @ [i - j], i, l))
     else
       and_then
         (if i < int (length text) then
            and_then (py_index pattern j) (\<lambda>a.
            and_then (py_index text i) (\<lambda>b. Returns (a \<noteq> b)))
          else Returns False)
         (\<lambda>mismatch.
            if mismatch then
              (if j \<noteq> 0 then
                 and_then (py_index lps (j - 1)) (\<lambda>l. Returns (matches, i, l))
               else Returns (matches, i + 1, j))
            else Returns (matches, i, j)))"

definition kmp_step ::
  "'a list \<Rightarrow> 'a list \<Rightarrow> int list \<Rightarrow> int list \<times> int \<times> int \<Rightarrow> (int list \<times> int \<times> int) outcome" where
  "kmp_step text pattern lps = (\<lambda>(matches, i, j).
     and_then (py_index pattern j) (\<lambda>a.
     and_then (py_index text i) (\<lambda>b.
       kmp_decide text pattern lps
         (if a = b then (matches, i + 1, j + 1) else (matches, i, j)))))"

definition kmp_search :: "'a list \<Rightarrow> 'a list \<Rightarrow> int list outcome" where
  "kmp_search text pattern =
     (if pattern = [] then Returns []
      else
        and_then (compute_lps pattern) (\<lambda>lps.
        and_then
          (py_while (\<lambda>(matches, i, j). Returns (i < int (length text)))
             (kmp_step text pattern lps)
             ([], 0, 0))
          (\<lambda>(matches, i, j). Returns matches)))"

section \<open>Bad-character shift scan\<close>

text \<open>\<open>bad_char_table\<close>: the last index of every character of the pattern.\<close>

definition bad_char_table :: "'a list \<Rightarrow> ('a \<rightharpoonup> int)" where
  "bad_char_table pattern =
     fold (\<lambda>i table. table(pattern ! i \<mapsto> int i)) [0..<length pattern] Map.empty"

text \<open>
  The inner loop of both shift scans compares right to left and leaves \<open>j\<close> at the
  first mismatch, or at \<open>-1\<close>. \<open>bm_compare\<close> reads the pattern first,
  \<open>horspool_compare\<close> the text first, as their sources do.
\<close>

definition bm_compare :: "'a list \<Rightarrow> 'a list \<Rightarrow> int \<Rightarrow> int outcome" where
  "bm_compare text pattern shift =
     py_while
       (\<lambda>j. if 0 \<le> j then
              and_then (py_index pattern j) (\<lambda>a.
              and_then (py_index text (shift + j)) (\<lambda>b. Returns (a = b)))
            else Returns False)
       (\<lambda>j. Returns (j - 1))
       (int (length pattern) - 1)"

text \<open>\<open>boyer_moore_search\<close>: the loop state is \<open>(matches, shift)\<close>.\<close>

definition bm_step ::
  "'a list \<Rightarrow> 'a list \<Rightarrow> ('a \<rightharpoonup> int) \<Rightarrow> int list \<times> int \<Rightarrow> (int list \<times> int) outcome" where
  "bm_step text pattern bad_char = (\<lambda>(matches, shift).
     and_then (bm_compare text pattern shift) (\<lambda>j.
       if j < 0 then Returns (matches @ [shift], shift + 1)
       else
         and_then (py_index text (shift + j)) (\<lambda>c.
           Returns (matches,
             shift + max 1 (j - (case bad_char c of None \<Rightarrow> - 1 | Some k \<Rightarrow> k))))))"

definition boyer_moore_search :: "'a list \<Rightarrow> 'a list \<Rightarrow> int list outcome" where
  "boyer_moore_search text pattern =
     (if pattern = [] then Returns []
      else
        let bad_char = bad_char_table pattern in
        and_then
          (py_while
             (\<lambda>(matches, shift). Returns (shift \<le> int (length text) - int (length pattern)))
             (bm_step text pattern bad_char)
             ([], 0))
          (\<lambda>(matches, shift). Returns matches))"

section \<open>Horspool shift scan\<close>

text \<open>
  \<open>horspool_skip\<close>: the skip table, built from every character but the last.
\<close>

definition horspool_skip :: "'a list \<Rightarrow> ('a \<rightharpoonup> int)" where
  "horspool_skip pattern =
     fold (\<lambda>i skip. skip(pattern ! i \<mapsto> int (length pattern) - int i - 1))
       [0..<length pattern - 1] Map.empty"

definition horspool_compare :: "'a list \<Rightarrow> 'a list \<Rightarrow> int \<Rightarrow> int outcome" where
  "horspool_compare text pattern i =
     py_while
       (\<lambda>j. if 0 \<le> j then
              and_then (py_index text (i + j)) (\<lambda>a.
              and_then (py_index pattern j) (\<lambda>b. Returns (a = b)))
            else Returns False)
       (\<lambda>j. Returns (j - 1))
       (int (length pattern) - 1)"

definition horspool_step ::
  "'a list \<Rightarrow> 'a list \<Rightarrow> ('a \<rightharpoonup> int) \<Rightarrow> int list \<times> int \<Rightarrow> (int list \<times> int) outcome" where
  "horspool_step text pattern skip = (\<lambda>(matches, i).
     and_then (horspool_compare text pattern i) (\<lambda>j.
       if j < 0 then Returns (matches @ [i], i + 1)
       else
         and_then (py_index text (i + int (length pattern) - 1)) (\<lambda>c.
           Returns (matches,
             i + (case skip c of None \<Rightarrow> int (length pattern) | Some d \<Rightarrow> d)))))"

definition boyer_moore_horspool_search :: "'a list \<Rightarrow> 'a list \<Rightarrow> int list outcome" where
  "boyer_moore_horspool_search text pattern =
     (if pattern = [] then Returns []
      else
        let skip = horspool_skip pattern in
        and_then
          (py_while
             (\<lambda>(matches, i). Returns (i \<le> int (length text) - int (length pattern)))
             (horspool_step text pattern skip)
             ([], 0))
          (\<lambda>(matches, i). Returns matches))"

section \<open>Rolling-hash scan\<close>

text \<open>
  \<open>ord\<close>, the code point of a character, is a parameter. Python's \<open>%\<close> with a
  positive modulus is \<open>mod\<close> on \<open>int\<close>: the result is never negative.
  \<open>rabin_karp_search\<close> only calls \<open>rolling_hash\<close> with the modulus \<open>101\<close>.
\<close>

definition rolling_hash :: "('a \<Rightarrow> int) \<Rightarrow> 'a list \<Rightarrow> int \<Rightarrow> int \<Rightarrow> int" where
  "rolling_hash ord s base modulus =
     fold (\<lambda>char hash_value. (hash_value * base + ord char) mod modulus) s 0"

text \<open>\<open>rabin_karp_search\<close>: the state of its \<open>for\<close> loop is \<open>(text_hash, matches)\<close>.\<close>

definition rk_step ::
  "('a \<Rightarrow> int) \<Rightarrow> 'a list \<Rightarrow> 'a list \<Rightarrow> int \<Rightarrow> int \<Rightarrow> int \<Rightarrow> int \<Rightarrow> int
     \<Rightarrow> int \<times> int list \<Rightarrow> (int \<times> int list) outcome" where
  "rk_step ord text pattern base modulus pattern_hash h i = (\<lambda>(text_hash, matches).
     let pattern_len = int (length pattern);
         text_len = int (length text);
         matches =
           (if pattern_hash = text_hash then
              (if py_slice text i (i + pattern_len) = pattern then matches @ [i] else matches)
            else matches)
     in
       if i < text_len - pattern_len then
         and_then (py_index text i) (\<lambda>out_char.
         let text_hash = (text_hash - ord out_char * h) mod modulus in
         and_then (py_index text (i + pattern_len)) (\<lambda>in_char.
         let text_hash = (text_hash * base + ord in_char) mod modulus;
             text_hash = (text_hash + modulus) mod modulus
         in Returns (text_hash, matches)))
       else Returns (text_hash, matches))"

definition rabin_karp_search :: "('a \<Rightarrow> int) \<Rightarrow> 'a list \<Rightarrow> 'a list \<Rightarrow> int list outcome" where
  "rabin_karp_search ord text pattern =
     (if pattern = [] then Returns []
      else
        let base = 256;
            modulus = 101;
            pattern_len = int (length pattern);
            text_len = int (length text)
        in
          if pattern_len > text_len then Returns []
          else
            let pattern_hash = rolling_hash ord pattern base modulus;
                text_hash = rolling_hash ord (py_slice text 0 pattern_len) base modulus;
                h = base ^ nat (pattern_len - 1) mod modulus
            in
              and_then
                (for_each (rk_step ord text pattern base modulus pattern_hash h)
                   (map int [0..<nat (text_len - pattern_len + 1)])
                   (text_hash, []))
                (\<lambda>(text_hash, matches). Returns matches))"


section \<open>Multi-pattern automaton\<close>

text \<open>
  The class \<open>AhoCorasick\<close> holds three dictionaries. \<open>goto\<close> is kept as an
  association list in insertion order, since the code reads its size and walks its
  keys; a key is only ever stored while absent, so storing appends. \<open>fail\<close> and
  \<open>output\<close> are only looked up and stored into.
\<close>

record 'a automaton =
  goto :: "((int \<times> 'a) \<times> int) list"
  fail :: "int \<rightharpoonup> int"
  "output" :: "int \<rightharpoonup> 'a list list"

definition new_automaton :: "'a automaton" where
  "new_automaton = \<lparr>goto = [], fail = Map.empty, output = Map.empty\<rparr>"

text \<open>
  The first phase of \<open>build_automaton\<close>. \<open>trie_char\<close> is the body of the loop over
  the characters of a pattern, on \<open>(goto, current_state)\<close>; \<open>trie_pattern\<close> is the
  body of the loop over the patterns.
\<close>

definition trie_char :: "'a \<Rightarrow> ((int \<times> 'a) \<times> int) list \<times> int \<Rightarrow> ((int \<times> 'a) \<times> int) list \<times> int" where
  "trie_char char = (\<lambda>(g, current_state).
     case map_of g (current_state, char) of
       None \<Rightarrow>
         (let new_state = int (length g) + 1
          in (g @ [((current_state, char), new_state)], new_state))
     | Some next_state \<Rightarrow> (g, next_state))"

definition trie_pattern :: "'a list \<Rightarrow> 'a automaton \<Rightarrow> 'a automaton" where
  "trie_pattern pattern ac =
     (let (g, current_state) = fold trie_char pattern (goto ac, 0);
          out = (case output ac current_state of None \<Rightarrow> [] | Some ps \<Rightarrow> ps)
      in ac\<lparr>goto := g, output := (output ac)(current_state \<mapsto> out @ [pattern])\<rparr>)"

text \<open>
  \<open>set(char for (state, char) in self.goto.keys() if state == r)\<close>. Python leaves
  the iteration order of a set open; the model takes the characters in the order
  of their insertion.
\<close>

definition out_chars :: "((int \<times> 'a) \<times> int) list \<Rightarrow> int \<Rightarrow> 'a list" where
  "out_chars g r = remdups (map (snd \<circ> fst) (filter (\<lambda>((state, char), _). state = r) g))"

text \<open>
  \<open>while state != 0 and (state, char) not in self.goto: state = self.fail[state]\<close>,
  in \<open>build_automaton\<close> and in \<open>search\<close>.
\<close>

definition follow_fail :: "((int \<times> 'a) \<times> int) list \<Rightarrow> (int \<rightharpoonup> int) \<Rightarrow> 'a \<Rightarrow> int \<Rightarrow> int outcome" where
  "follow_fail g f char =
     py_while (\<lambda>state. Returns (state \<noteq> 0 \<and> map_of g (state, char) = None))
       (\<lambda>state. py_lookup f state)"

text \<open>The second phase: the children of the root, on \<open>(fail, queue)\<close>.\<close>

definition root_links :: "'a automaton \<Rightarrow> ((int \<rightharpoonup> int) \<times> int list) outcome" where
  "root_links ac =
     for_each
       (\<lambda>char (f, queue).
          and_then (py_lookup (map_of (goto ac)) (0, char)) (\<lambda>state.
            Returns (f(state \<mapsto> 0), queue @ [state])))
       (out_chars (goto ac) 0) (fail ac, [])"

text \<open>
  The breadth-first traversal, on \<open>(automaton, queue)\<close>. \<open>link_child r\<close> is the body of
  the loop over the characters leaving \<open>r\<close>, \<open>bfs_step\<close> the body of \<open>while queue\<close>.
\<close>

definition link_child :: "int \<Rightarrow> 'a \<Rightarrow> 'a automaton \<times> int list \<Rightarrow> ('a automaton \<times> int list) outcome" where
  "link_child r char = (\<lambda>(ac, queue).
     and_then (py_lookup (map_of (goto ac)) (r, char)) (\<lambda>u.
     let queue = queue @ [u] in
     and_then (py_lookup (fail ac) r) (\<lambda>state.
     and_then (follow_fail (goto ac) (fail ac) char state) (\<lambda>state.
       let fail_u = (case map_of (goto ac) (state, char) of Some t \<Rightarrow> t | None \<Rightarrow> 0);
           ac = ac\<lparr>fail := (fail ac)(u \<mapsto> fail_u)\<rparr>
       in
         Returns
           (case output ac fail_u of
              None \<Rightarrow> ac
            | Some ps \<Rightarrow>
                ac\<lparr>output := (output ac)
                  (u \<mapsto> (case output ac u of None \<Rightarrow> [] | Some qs \<Rightarrow> qs) @ ps)\<rparr>,
            queue)))))"

definition bfs_step :: "'a automaton \<times> int list \<Rightarrow> ('a automaton \<times> int list) outcome" where
  "bfs_step = (\<lambda>(ac, queue).
     case queue of
       [] \<Rightarrow> Raises IndexError
     | r # queue \<Rightarrow> for_each (link_child r) (out_chars (goto ac) r) (ac, queue))"

definition build_automaton :: "'a list list \<Rightarrow> 'a automaton \<Rightarrow> 'a automaton outcome" where
  "build_automaton patterns ac =
     (let ac = fold trie_pattern patterns ac in
      and_then (root_links ac) (\<lambda>(f, queue).
      and_then
        (py_while (\<lambda>(ac, queue). Returns (queue \<noteq> [])) bfs_step (ac\<lparr>fail := f\<rparr>, queue))
        (\<lambda>(ac, queue). Returns ac)))"

text \<open>
  \<open>AhoCorasick.search\<close>. Its \<open>result\<close> dictionary is an association list in
  insertion order, which the dispatcher walks. \<open>record_match\<close> is
  \<open>if pattern not in result: result[pattern] = []\<close> followed by the \<open>append\<close>;
  \<open>scan_char\<close> is the body of the loop over the text, on \<open>(result, state)\<close>.
\<close>

definition record_match :: "'a list \<Rightarrow> int \<Rightarrow> ('a list \<times> int list) list \<Rightarrow> ('a list \<times> int list) list" where
  "record_match pattern pos result =
     (if map_of result pattern = None then result @ [(pattern, [pos])]
      else map (\<lambda>(p, ps). if p = pattern then (p, ps @ [pos]) else (p, ps)) result)"

definition scan_char ::
  "'a automaton \<Rightarrow> int \<times> 'a \<Rightarrow> ('a list \<times> int list) list \<times> int
     \<Rightarrow> (('a list \<times> int list) list \<times> int) outcome" where
  "scan_char ac = (\<lambda>(i, char) (result, state).
     and_then (follow_fail (goto ac) (fail ac) char state) (\<lambda>state.
       let state = (case map_of (goto ac) (state, char) of Some t \<Rightarrow> t | None \<Rightarrow> state);
           result =
             (case output ac state of
                None \<Rightarrow> result
              | Some ps \<Rightarrow>
                  fold (\<lambda>pattern. record_match pattern (i - int (length pattern) + 1)) ps result)
       in Returns (result, state)))"

definition automaton_search :: "'a automaton \<Rightarrow> 'a list \<Rightarrow> ('a list \<times> int list) list outcome" where
  "automaton_search ac text =
     and_then
       (for_each (scan_char ac) (zip (map int [0..<length text]) text) ([], 0))
       (\<lambda>(result, state). Returns result)"

section \<open>Unified dispatcher\<close>

text \<open>
  \<open>sub_string\<close> is a string or a list of strings. The result is \<open>None\<close>, a tuple of
  positions, or a dictionary from the original patterns to a tuple or \<open>None\<close>; the
  dictionary is an association list in insertion order, and storing under a key
  that is present replaces its value in place (\<open>AList.update\<close>).
  \<open>lower\<close>, Python's \<open>str.lower\<close>, is a parameter. The timing decorator prints
  and passes the result on; it is left out.
\<close>

datatype 'a sub_string = Single "'a list" | Multiple "'a list list"

datatype 'a search_result =
  Absent | Positions "int list" | Mapping "('a list \<times> int list option) list"

text \<open>\<open>s if case_sensitivity else s.lower()\<close>.\<close>

definition cased :: "('a list \<Rightarrow> 'a list) \<Rightarrow> bool \<Rightarrow> 'a list \<Rightarrow> 'a list" where
  "cased lower case_sensitivity s = (if case_sensitivity then s else lower s)"

text \<open>\<open>tuple(matches) if matches else None\<close>.\<close>

definition tuple_or_none :: "int list \<Rightarrow> int list option" where
  "tuple_or_none matches = (if matches \<noteq> [] then Some matches else None)"

text \<open>The direction and the count, applied to a list of results.\<close>

definition direct_and_limit :: "string \<Rightarrow> int option \<Rightarrow> 'b list \<Rightarrow> 'b list" where
  "direct_and_limit method' count' results =
     (let results = (if method' = ''last'' then rev results else results)
      in case count' of None \<Rightarrow> results | Some c \<Rightarrow> py_take c results)"

text \<open>
  The multi-pattern path after the scan: \<open>merged_results\<close> is \<open>all_results\<close> once
  collected, sorted by position (Python's sort is stable, as \<open>sort_key\<close> is),
  directed and limited; \<open>regroup\<close> builds the final dictionary from it.
\<close>

definition merged_results ::
  "string \<Rightarrow> int option \<Rightarrow> ('a list \<times> int list) list \<Rightarrow> (int \<times> 'a list) list" where
  "merged_results method' count' all_matches =
     direct_and_limit method' count'
       (sort_key fst
          (concat (map (\<lambda>(pattern, positions). map (\<lambda>pos. (pos, pattern)) positions) all_matches)))"

definition regroup ::
  "('a list \<Rightarrow> 'a list) \<Rightarrow> bool \<Rightarrow> 'a list list \<Rightarrow> (int \<times> 'a list) list
     \<Rightarrow> ('a list \<times> int list option) list" where
  "regroup lower case_sensitivity sub_strings all_results =
     fold
       (\<lambda>original_pattern result.
          let pattern = cased lower case_sensitivity original_pattern;
              matches = map fst (filter (\<lambda>(pos, p). p = pattern) all_results)
          in AList.update original_pattern (tuple_or_none matches) result)
       sub_strings []"

definition search ::
  "('a list \<Rightarrow> 'a list) \<Rightarrow> 'a list \<Rightarrow> 'a sub_string \<Rightarrow> bool \<Rightarrow> string \<Rightarrow> int option
     \<Rightarrow> 'a search_result outcome" where
  "search lower string' sub_string case_sensitivity method' count' =
     (if string' = [] then Returns Absent
      else
        let search_string = cased lower case_sensitivity string' in
        case sub_string of
          Single sub \<Rightarrow>
            if sub = [] then Returns Absent
            else
              let pattern = cased lower case_sensitivity sub in
              and_then (kmp_search search_string pattern) (\<lambda>matches.
                if matches = [] then Returns Absent
                else
                  Returns
                    (case tuple_or_none (direct_and_limit method' count' matches) of
                       None \<Rightarrow> Absent
                     | Some matches \<Rightarrow> Positions matches))
        | Multiple subs \<Rightarrow>
            if subs = [] then Returns Absent
            else
              let patterns =
                    map (cased lower case_sensitivity) (filter (\<lambda>p. p \<noteq> []) subs)
              in
                if patterns = [] then Returns Absent
                else
                  and_then (build_automaton patterns new_automaton) (\<lambda>ac.
                  and_then (automaton_search ac search_string) (\<lambda>all_matches.
                    let result =
                          regroup lower case_sensitivity subs
                            (merged_results method' count' all_matches)
                    in
                      Returns
                        (if list_ex (\<lambda>(original, v). v \<noteq> None) result
                         then Mapping result else Absent))))"

section \<open>Specification notions\<close>

text \<open>
  \<open>is_border p n k\<close>: the prefix of \<open>p\<close> of length \<open>k\<close> is a proper prefix of the first
  \<open>n\<close> characters of \<open>p\<close> and also a suffix of them. \<open>longest_border p n b\<close>: \<open>b\<close> is
  the greatest such length.
\<close>

definition is_border :: "'a list \<Rightarrow> nat \<Rightarrow> nat \<Rightarrow> bool" where
  "is_border p n k \<longleftrightarrow> k < n \<and> n \<le> length p \<and> take k p = drop (n - k) (take n p)"

definition longest_border :: "'a list \<Rightarrow> nat \<Rightarrow> nat \<Rightarrow> bool" where
  "longest_border p n b \<longleftrightarrow> is_border p n b \<and> (\<forall>k<n. is_border p n k \<longrightarrow> k \<le> b)"

text \<open>
  \<open>occurs_at text pattern s\<close>: the pattern aligns with the text at the zero-based
  position \<open>s\<close>. \<open>occurrences\<close> lists every such position in ascending order,
  overlapping ones included.
\<close>

definition occurs_at :: "'a list \<Rightarrow> 'a list \<Rightarrow> nat \<Rightarrow> bool" where
  "occurs_at text pattern s \<longleftrightarrow> take (length pattern) (drop s text) = pattern"

definition occurrences :: "'a list \<Rightarrow> 'a list \<Rightarrow> int list" where
  "occurrences text pattern = map int (filter (occurs_at text pattern) [0..<length text])"

text \<open>
  Reversing a result of \<open>search\<close>: every sequence of positions in it is reversed.
  Limiting a sequence of positions, an empty one being returned as \<open>None\<close>.
\<close>

fun reverse_result :: "'a search_result \<Rightarrow> 'a search_result" where
  "reverse_result Absent = Absent"
| "reverse_result (Positions ps) = Positions (rev ps)"
| "reverse_result (Mapping m) = Mapping (map (\<lambda>(k, v). (k, map_option rev v)) m)"

definition positions_result :: "int list \<Rightarrow> 'a search_result" where
  "positions_result ps = (if ps = [] then Absent else Positions ps)"

text \<open>A lowercase mapping on the ASCII letters, for the examples.\<close>

definition lower_ascii :: "string \<Rightarrow> string" where
  "lower_ascii =
     map (\<lambda>c. if (65::nat) \<le> of_char c \<and> of_char c \<le> (90::nat)
              then char_of (of_char c + (32::nat)) else c)"

subsection \<open>Loop invariants\<close>

text \<open>The invariant of the loop of \<open>compute_lps\<close>, at \<open>length = l\<close> and \<open>i = n\<close>.\<close>

definition lps_inv :: "'a list \<Rightarrow> nat \<Rightarrow> int list \<Rightarrow> nat \<Rightarrow> bool" where
  "lps_inv p l lps n \<longleftrightarrow>
     1 \<le> n \<and> n \<le> length p \<and> length lps = length p \<and>
     (\<forall>k<n. \<exists>b. lps ! k = int b \<and> longest_border p (Suc k) b) \<and>
     is_border p n l \<and> (\<forall>k. is_border p (Suc n) k \<longrightarrow> k \<le> Suc l)"

text \<open>A correct prefix table for \<open>p\<close>.\<close>

definition lps_ok :: "'a list \<Rightarrow> int list \<Rightarrow> bool" where
  "lps_ok p lps \<longleftrightarrow>
     length lps = length p \<and> (\<forall>k<length p. \<exists>b. lps ! k = int b \<and> longest_border p (Suc k) b)"

text \<open>
  The invariant of the loop of \<open>kmp_search\<close>, at \<open>i\<close> and \<open>j\<close>: the first \<open>j\<close>
  characters of the pattern end at text position \<open>i\<close>, and \<open>matches\<close> holds the
  occurrences that start before \<open>i - j\<close>.
\<close>

definition kmp_pre :: "'a list \<Rightarrow> 'a list \<Rightarrow> nat \<Rightarrow> nat \<Rightarrow> bool" where
  "kmp_pre t p i j \<longleftrightarrow>
     j \<le> i \<and> i \<le> length t \<and> j \<le> length p \<and> (\<forall>k<j. p ! k = t ! (i - j + k))"

definition kmp_inv :: "'a list \<Rightarrow> 'a list \<Rightarrow> int list \<Rightarrow> nat \<Rightarrow> nat \<Rightarrow> bool" where
  "kmp_inv t p ms i j \<longleftrightarrow>
     kmp_pre t p i j \<and> ms = map int (filter (occurs_at t p) [0..<i - j])"

subsection \<open>The trie of the automaton\<close>

text \<open>
  \<open>trie g\<close>: the transitions \<open>g\<close> were built the way \<open>build_automaton\<close> builds them,
  each new transition leaving a state that exists, on a character it has no
  transition for, to a fresh state. \<open>trie_words g t\<close> is the string that leads
  from the root to the state \<open>t\<close>, and \<open>nodes g\<close> are the states.
\<close>

inductive trie :: "((int \<times> 'a) \<times> int) list \<Rightarrow> bool" where
  empty: "trie []"
| grow: "trie g \<Longrightarrow> 0 \<le> s \<Longrightarrow> s \<le> int (length g) \<Longrightarrow> map_of g (s, c) = None \<Longrightarrow>
         trie (g @ [((s, c), int (length g) + 1)])"

definition trie_words :: "((int \<times> 'a) \<times> int) list \<Rightarrow> int \<Rightarrow> 'a list" where
  "trie_words g = fold (\<lambda>((s, c), t) W. W(t := W s @ [c])) g (\<lambda>_. [])"

definition nodes :: "((int \<times> 'a) \<times> int) list \<Rightarrow> int set" where
  "nodes g = {0..int (length g)}"

text \<open>
  The state of the automaton after its first phase on the patterns \<open>ps\<close>: every
  pattern is the word of a state, and the output list of a state holds the copies of
  its word among the patterns.
\<close>

definition own_patterns :: "((int \<times> 'a) \<times> int) list \<Rightarrow> 'a list list \<Rightarrow> int \<Rightarrow> 'a list list" where
  "own_patterns g ps t = (if t \<in> nodes g then filter (\<lambda>q. q = trie_words g t) ps else [])"

definition list_entry :: "'b list \<Rightarrow> 'b list option" where
  "list_entry xs = (if xs = [] then None else Some xs)"

definition phase1 :: "'a list list \<Rightarrow> 'a automaton \<Rightarrow> bool" where
  "phase1 ps ac \<longleftrightarrow>
     trie (goto ac) \<and> fail ac = Map.empty \<and>
     (\<forall>p \<in> set ps. \<exists>t \<in> nodes (goto ac). trie_words (goto ac) t = p) \<and>
     (\<forall>t. output ac t = list_entry (own_patterns (goto ac) ps t))"

text \<open>
  \<open>lsuf_upto g x L s\<close>: among the states whose word is a suffix of \<open>x\<close> of length at
  most \<open>L\<close>, \<open>s\<close> has the longest word. The failure link of a state is the state of
  the longest proper suffix of its word that is a word.
\<close>

definition lsuf_upto :: "((int \<times> 'a) \<times> int) list \<Rightarrow> 'a list \<Rightarrow> nat \<Rightarrow> int \<Rightarrow> bool" where
  "lsuf_upto g x L s \<longleftrightarrow>
     s \<in> nodes g \<and> suffix (trie_words g s) x \<and> length (trie_words g s) \<le> L \<and>
     (\<forall>v \<in> nodes g. suffix (trie_words g v) x \<and> length (trie_words g v) \<le> L \<longrightarrow>
        length (trie_words g v) \<le> length (trie_words g s))"

definition fail_ok :: "((int \<times> 'a) \<times> int) list \<Rightarrow> int \<Rightarrow> int \<Rightarrow> bool" where
  "fail_ok g t f \<longleftrightarrow> lsuf_upto g (trie_words g t) (length (trie_words g t) - 1) f"

text \<open>
  \<open>suffix_hits ps x\<close>: the patterns that are non-empty suffixes of \<open>x\<close>, the longest
  first, every copy of a pattern counted. \<open>reports ps text\<close>: what a scan of the
  text has to record, in order: for every index, the patterns that end there, each
  with its start position.
\<close>

definition suffix_hits :: "'a list list \<Rightarrow> 'a list \<Rightarrow> 'a list list" where
  "suffix_hits ps x = concat (map (\<lambda>k. filter (\<lambda>q. q = drop k x) ps) [0..<length x])"

definition reports :: "'a list list \<Rightarrow> 'a list \<Rightarrow> ('a list \<times> int) list" where
  "reports ps text =
     concat (map (\<lambda>i. map (\<lambda>q. (q, int i - int (length q) + 1)) (suffix_hits ps (take (Suc i) text)))
       [0..<length text])"

text \<open>
  The automaton that \<open>build_automaton\<close> has to return for the patterns \<open>ps\<close>.
\<close>

definition automaton_ok :: "'a list list \<Rightarrow> 'a automaton \<Rightarrow> bool" where
  "automaton_ok ps ac \<longleftrightarrow>
     trie (goto ac) \<and>
     (\<forall>p \<in> set ps. \<exists>t \<in> nodes (goto ac). trie_words (goto ac) t = p) \<and>
     (\<forall>t \<in> nodes (goto ac). t \<noteq> 0 \<longrightarrow> (\<exists>f. fail ac t = Some f \<and> fail_ok (goto ac) t f)) \<and>
     ([] \<notin> set ps \<longrightarrow>
        (\<forall>t \<in> nodes (goto ac). output ac t = list_entry (suffix_hits ps (trie_words (goto ac) t))))"

text \<open>
  The states at a depth, and the children of a set of states.
\<close>

definition level :: "((int \<times> 'a) \<times> int) list \<Rightarrow> nat \<Rightarrow> int set" where
  "level g d = {t \<in> nodes g. length (trie_words g t) = d}"

definition kids :: "((int \<times> 'a) \<times> int) list \<Rightarrow> int set \<Rightarrow> int set" where
  "kids g S = {u. \<exists>s \<in> S. \<exists>c. map_of g (s, c) = Some u}"

text \<open>
  The invariant of the breadth-first traversal at depth \<open>d\<close>: \<open>qd\<close> are the states of
  depth \<open>d\<close> still in the queue and \<open>qn\<close> the states of depth \<open>d + 1\<close> found so far;
  a state has its failure link, and its final output list, exactly when its depth is
  at most \<open>d\<close> or it is in \<open>qn\<close>.
\<close>

definition bfs_state ::
  "((int \<times> 'a) \<times> int) list \<Rightarrow> 'a list list \<Rightarrow> nat \<Rightarrow> int list \<Rightarrow> int list \<Rightarrow> 'a automaton \<Rightarrow> bool" where
  "bfs_state g ps d qd qn ac \<longleftrightarrow>
     goto ac = g \<and> trie g \<and> (\<forall>p \<in> set ps. \<exists>t \<in> nodes g. trie_words g t = p) \<and> 1 \<le> d \<and>
     dom (fail ac) = {t \<in> nodes g. 1 \<le> length (trie_words g t) \<and> length (trie_words g t) \<le> d} \<union> set qn \<and>
     set qd \<subseteq> level g d \<and> set qn \<subseteq> level g (Suc d) \<and> distinct (qd @ qn) \<and>
     (\<forall>u \<in> dom (fail ac). \<exists>f. fail ac u = Some f \<and> fail_ok g u f) \<and>
     ([] \<notin> set ps \<longrightarrow>
        (\<forall>t. output ac t =
           list_entry (if t \<in> dom (fail ac) then suffix_hits ps (trie_words g t)
                       else own_patterns g ps t)))"

subsection \<open>The result of the scan and of the multi-pattern path\<close>

text \<open>
  \<open>scan_table ps text\<close>: the dictionary that the scan of the text returns: the
  patterns reported, in the order of their first report, each with its start
  positions in the order of the reports. \<open>merged_matches\<close> is the sequence of the
  pairs of a position and a pattern of that dictionary, sorted by position;
  \<open>patterns_of\<close> are the patterns of the automaton, the non-empty original ones, in
  lower case unless the search is case sensitive; \<open>multi_result\<close> is the dictionary
  returned for the pairs that are kept, or \<open>None\<close> when every value of it is \<open>None\<close>.
\<close>

definition first_seen :: "'b list \<Rightarrow> 'b list" where
  "first_seen xs = rev (remdups (rev xs))"

definition scan_table :: "'a list list \<Rightarrow> 'a list \<Rightarrow> ('a list \<times> int list) list" where
  "scan_table ps text =
     map (\<lambda>q. (q, map snd (filter (\<lambda>r. fst r = q) (reports ps text))))
       (first_seen (map fst (reports ps text)))"

definition multi_result ::
  "('a list \<Rightarrow> 'a list) \<Rightarrow> bool \<Rightarrow> 'a list list \<Rightarrow> (int \<times> 'a list) list \<Rightarrow> 'a search_result" where
  "multi_result lower cs subs kept =
     (let result = regroup lower cs subs kept
      in if list_ex (\<lambda>(original, v). v \<noteq> None) result then Mapping result else Absent)"

definition merged_matches :: "'a list list \<Rightarrow> 'a list \<Rightarrow> (int \<times> 'a list) list" where
  "merged_matches ps text =
     sort_key fst (concat (map (\<lambda>(q, positions). map (\<lambda>pos. (pos, q)) positions) (scan_table ps text)))"

definition patterns_of :: "('a list \<Rightarrow> 'a list) \<Rightarrow> bool \<Rightarrow> 'a list list \<Rightarrow> 'a list list" where
  "patterns_of lower cs subs = map (cased lower cs) (filter (\<lambda>p. p \<noteq> []) subs)"

section \<open>Basic facts about outcomes and loops\<close>


lemma and_then_simps [simp]:
  "and_then (Returns x) f = f x"
  "and_then (Raises e) f = Raises e"
  "and_then Diverges f = Diverges"
  by (simp_all add: and_then_def)

lemma and_then_Returns_iff:
  "and_then m f = Returns y \<longleftrightarrow> (\<exists>x. m = Returns x \<and> f x = Returns y)"
  by (cases m) simp_all

lemma py_index_nat: "k < length xs \<Longrightarrow> py_index xs (int k) = Returns (xs ! k)"
  by (simp add: py_index_def)

lemma py_store_nat: "k < length xs \<Longrightarrow> py_store xs (int k) v = Returns (xs[k := v])"
  by (simp add: py_store_def)

lemma py_while_unfold:
  "py_while b c s =
     and_then (b s) (\<lambda>g. if g then and_then (c s) (py_while b c) else Returns s)"
proof (cases "b s")
  case (Returns g)
  show ?thesis
  proof (cases g)
    case True
    with Returns show ?thesis
      by (cases "c s"; subst py_while_def; subst while_option_unfold)
         (simp_all add: py_while_def while_option_unfold)
  next
    case False
    with Returns show ?thesis
      by (subst py_while_def, subst while_option_unfold) simp
  qed
qed (subst py_while_def, subst while_option_unfold, simp)+

lemma py_while_total:
  fixes m :: "'s \<Rightarrow> nat"
  assumes init: "I s0"
    and step: "\<And>s. I s \<Longrightarrow> b s = Returns False \<or>
                 (b s = Returns True \<and> (\<exists>s'. c s = Returns s' \<and> I s' \<and> m s' < m s))"
  shows "\<exists>t. py_while b c s0 = Returns t \<and> I t \<and> b t = Returns False"
  using init
proof (induction "m s0" arbitrary: s0 rule: less_induct)
  case less
  from step [OF less.prems] show ?case
  proof
    assume "b s0 = Returns False"
    with less.prems show ?thesis
      by (subst py_while_unfold) simp
  next
    assume "b s0 = Returns True \<and> (\<exists>s'. c s0 = Returns s' \<and> I s' \<and> m s' < m s0)"
    then obtain s' where b: "b s0 = Returns True" and c: "c s0 = Returns s'"
      and I: "I s'" and m: "m s' < m s0" by blast
    from less.hyps [OF m I] obtain t where "py_while b c s' = Returns t" "I t" "b t = Returns False"
      by blast
    with b c show ?thesis
      by (subst py_while_unfold) simp
  qed
qed


section \<open>The prefix table is correct\<close>

lemma is_border_nth:
  "is_border p n k \<longleftrightarrow> k < n \<and> n \<le> length p \<and> (\<forall>t<k. p ! t = p ! (n - k + t))"
proof (cases "k < n \<and> n \<le> length p")
  case True
  then have "take k p = drop (n - k) (take n p) \<longleftrightarrow> (\<forall>t<k. p ! t = p ! (n - k + t))"
    by (auto simp: list_eq_iff_nth_eq)
  with True show ?thesis by (simp add: is_border_def)
qed (auto simp: is_border_def)

lemma is_border_zero: "0 < n \<Longrightarrow> n \<le> length p \<Longrightarrow> is_border p n 0"
  by (simp add: is_border_nth)

lemma is_border_trans:
  assumes "is_border p n k" "is_border p k j"
  shows "is_border p n j"
proof -
  from assms have b: "j < k" "k < n" "n \<le> length p"
    and nk: "\<forall>t<k. p ! t = p ! (n - k + t)" and kj: "\<forall>t<j. p ! t = p ! (k - j + t)"
    unfolding is_border_nth by blast+
  have "p ! t = p ! (n - j + t)" if "t < j" for t
  proof -
    have "p ! t = p ! (k - j + t)" using kj that by simp
    also have "\<dots> = p ! (n - k + (k - j + t))" using nk that b by simp
    also have "n - k + (k - j + t) = n - j + t" using b that by simp
    finally show ?thesis .
  qed
  with b show ?thesis by (simp add: is_border_nth)
qed

lemma is_border_smaller:
  assumes "is_border p n k" "is_border p n j" "j < k"
  shows "is_border p k j"
proof -
  from assms have b: "k < n" "n \<le> length p"
    and nk: "\<forall>t<k. p ! t = p ! (n - k + t)" and nj: "\<forall>t<j. p ! t = p ! (n - j + t)"
    unfolding is_border_nth by blast+
  have "p ! t = p ! (k - j + t)" if "t < j" for t
  proof -
    have "p ! (k - j + t) = p ! (n - k + (k - j + t))" using nk that assms(3) by simp
    also have "n - k + (k - j + t) = n - j + t" using b that assms(3) by simp
    finally show ?thesis using nj that by simp
  qed
  with b assms(3) show ?thesis by (simp add: is_border_nth)
qed

lemma is_border_Suc:
  assumes "n < length p"
  shows "is_border p (Suc n) (Suc k) \<longleftrightarrow> is_border p n k \<and> p ! k = p ! n"
proof
  assume l: "is_border p (Suc n) (Suc k)"
  then have kn: "k < n" and all: "\<forall>t<Suc k. p ! t = p ! (Suc n - Suc k + t)"
    unfolding is_border_nth by auto
  from all kn have "p ! k = p ! n" by (auto dest: spec [of _ k])
  moreover from all kn assms have "is_border p n k" by (simp add: is_border_nth)
  ultimately show "is_border p n k \<and> p ! k = p ! n" by simp
next
  assume r: "is_border p n k \<and> p ! k = p ! n"
  then have kn: "k < n" and all: "\<forall>t<k. p ! t = p ! (n - k + t)" and eq: "p ! k = p ! n"
    unfolding is_border_nth by blast+
  have "p ! t = p ! (Suc n - Suc k + t)" if "t < Suc k" for t
    using that all eq kn by (cases "t = k") auto
  with kn assms show "is_border p (Suc n) (Suc k)" by (simp add: is_border_nth)
qed


lemma is_border_Suc_bound:
  assumes "\<forall>k. is_border p n k \<longrightarrow> k \<le> b"
  shows "\<forall>k. is_border p (Suc n) k \<longrightarrow> k \<le> Suc b"
proof (intro allI impI)
  fix k assume k: "is_border p (Suc n) k"
  show "k \<le> Suc b"
  proof (cases k)
    case (Suc k')
    from k have "n < length p" by (simp add: is_border_def)
    with k Suc have "is_border p n k'" by (simp add: is_border_Suc)
    with assms Suc show ?thesis by simp
  qed simp
qed

lemma lps_step_match:
  assumes inv: "lps_inv p l lps n" and n: "n < length p" and eq: "p ! n = p ! l"
  shows "lps_step p (int l, lps, int n) = Returns (int (Suc l), lps[n := int (Suc l)], int (Suc n))"
    and "lps_inv p (Suc l) (lps[n := int (Suc l)]) (Suc n)"
proof -
  from inv have l: "l < n" and len: "length lps = length p" and bl: "is_border p n l"
    and mx: "\<forall>k. is_border p (Suc n) k \<longrightarrow> k \<le> Suc l"
    and tab: "\<forall>k<n. \<exists>b. lps ! k = int b \<and> longest_border p (Suc k) b"
    by (auto simp: lps_inv_def is_border_def)
  from l n len eq show "lps_step p (int l, lps, int n) = Returns (int (Suc l), lps[n := int (Suc l)], int (Suc n))"
    by (simp add: lps_step_def py_index_nat py_store_nat add.commute)
  from bl eq n have b': "is_border p (Suc n) (Suc l)" by (simp add: is_border_Suc)
  with mx have lb: "longest_border p (Suc n) (Suc l)" by (simp add: longest_border_def)
  have "\<exists>b. lps[n := int (Suc l)] ! k = int b \<and> longest_border p (Suc k) b" if "k < Suc n" for k
  proof (cases "k = n")
    case True with lb n len show ?thesis by (intro exI [of _ "Suc l"]) simp
  next
    case False with that tab show ?thesis by simp
  qed
  moreover from mx have "\<forall>k. is_border p (Suc (Suc n)) k \<longrightarrow> k \<le> Suc (Suc l)"
    by (rule is_border_Suc_bound)
  ultimately show "lps_inv p (Suc l) (lps[n := int (Suc l)]) (Suc n)"
    using n len b' by (simp add: lps_inv_def)
qed

lemma lps_step_fallback:
  assumes inv: "lps_inv p l lps n" and n: "n < length p" and ne: "p ! n \<noteq> p ! l" and l0: "l \<noteq> 0"
  shows "\<exists>l'. lps_step p (int l, lps, int n) = Returns (int l', lps, int n) \<and> l' < l \<and> lps_inv p l' lps n"
proof -
  from inv have l: "l < n" and len: "length lps = length p" and bl: "is_border p n l"
    and mx: "\<forall>k. is_border p (Suc n) k \<longrightarrow> k \<le> Suc l"
    and tab: "\<forall>k<n. \<exists>b. lps ! k = int b \<and> longest_border p (Suc k) b"
    by (auto simp: lps_inv_def is_border_def)
  from l0 l tab obtain l' where l': "lps ! (l - 1) = int l'" and lb: "longest_border p l l'"
    by (metis Suc_pred' less_imp_diff_less not_gr_zero)

  from lb have bl': "is_border p l l'" and mx': "\<forall>k<l. is_border p l k \<longrightarrow> k \<le> l'"
    by (simp_all add: longest_border_def)
  from bl' have ll: "l' < l" by (simp add: is_border_def)
  have idx: "py_index lps (int l - 1) = Returns (int l')"
    using py_index_nat [of "l - 1" lps] l0 l n len l' by (simp add: of_nat_diff)
  from l n len ne l0 idx have "lps_step p (int l, lps, int n) = Returns (int l', lps, int n)"
    by (simp add: lps_step_def py_index_nat)
  moreover have "is_border p n l'" using bl bl' by (rule is_border_trans)
  moreover have "k \<le> Suc l'" if k: "is_border p (Suc n) k" for k
  proof (cases k)
    case (Suc k')
    with k n have bk: "is_border p n k'" and eq: "p ! k' = p ! n" by (simp_all add: is_border_Suc)
    from mx k Suc have "k' \<le> l" by auto
    with eq ne have "k' < l" by (cases "k' = l") auto
    then have "is_border p l k'" by (rule is_border_smaller [OF bl bk])
    with mx' \<open>k' < l\<close> Suc show ?thesis by simp
  qed simp
  ultimately show ?thesis using inv ll by (auto simp: lps_inv_def)
qed

lemma lps_step_zero:
  assumes inv: "lps_inv p 0 lps n" and n: "n < length p" and ne: "p ! n \<noteq> p ! 0"
  shows "lps_step p (0, lps, int n) = Returns (0, lps[n := 0], int (Suc n))"
    and "lps_inv p 0 (lps[n := 0]) (Suc n)"
proof -
  from inv have l: "0 < n" and len: "length lps = length p"
    and mx: "\<forall>k. is_border p (Suc n) k \<longrightarrow> k \<le> Suc 0"
    and tab: "\<forall>k<n. \<exists>b. lps ! k = int b \<and> longest_border p (Suc k) b"
    by (auto simp: lps_inv_def is_border_def)
  from l n have p0: "py_index p 0 = Returns (p ! 0)" by (auto simp: py_index_def)
  from l n len ne show "lps_step p (0, lps, int n) = Returns (0, lps[n := 0], int (Suc n))"
    by (simp add: lps_step_def p0 py_index_nat py_store_nat add.commute)
  have b0: "is_border p (Suc n) 0" using n by (simp add: is_border_zero)
  have mx0: "k \<le> 0" if k: "is_border p (Suc n) k" for k
  proof (cases k)
    case (Suc k')
    with mx k have "k' = 0" by auto
    with k Suc n have "p ! 0 = p ! n" by (simp add: is_border_Suc)
    with ne show ?thesis by simp
  qed simp
  then have lb: "longest_border p (Suc n) 0" using b0 by (auto simp: longest_border_def)
  have "\<exists>b. lps[n := 0] ! k = int b \<and> longest_border p (Suc k) b" if "k < Suc n" for k
  proof (cases "k = n")
    case True with lb n len show ?thesis by (intro exI [of _ 0]) simp
  next
    case False with that tab show ?thesis by simp
  qed
  moreover from mx0 have "\<forall>k. is_border p (Suc (Suc n)) k \<longrightarrow> k \<le> Suc 0"
    by (intro is_border_Suc_bound) auto
  ultimately show "lps_inv p 0 (lps[n := 0]) (Suc n)"
    using n len b0 by (simp add: lps_inv_def)
qed

lemma lps_inv_init: "p \<noteq> [] \<Longrightarrow> lps_inv p 0 (replicate (length p) 0) 1"
proof -
  assume "p \<noteq> []"
  then have len: "1 \<le> length p" by (cases p) simp_all
  then have b0: "is_border p 1 0" by (simp add: is_border_zero)
  then have "longest_border p (Suc 0) 0" by (simp add: longest_border_def)
  moreover have "\<forall>k. is_border p (Suc 1) k \<longrightarrow> k \<le> Suc 0" by (auto simp: is_border_def)
  moreover have "\<exists>b. replicate (length p) 0 ! 0 = int b \<and> longest_border p (Suc 0) b"
    using len \<open>longest_border p (Suc 0) 0\<close> by (intro exI [of _ 0]) (simp add: Suc_le_eq)
  ultimately show ?thesis using len b0 by (simp add: lps_inv_def)
qed

lemma compute_lps_ok:
  assumes "p \<noteq> []"
  shows "\<exists>lps. compute_lps p = Returns lps \<and> lps_ok p lps"
proof -
  let ?I = "\<lambda>(len, lps, i). \<exists>l n. len = int l \<and> i = int n \<and> lps_inv p l lps n"
  let ?m = "\<lambda>(len, lps, i). 2 * (length p - nat i) + nat len"
  let ?b = "\<lambda>(len :: int, lps :: int list, i). Returns (i < int (length p))"
  have "\<exists>t. py_while ?b (lps_step p) (0, replicate (length p) 0, 1) = Returns t \<and> ?I t
           \<and> ?b t = Returns False"
  proof (rule py_while_total [where I = ?I and m = ?m])
    from lps_inv_init [OF assms] show "?I (0, replicate (length p) 0, 1)"
      by (auto intro!: exI [of _ 0] exI [of _ 1])
  next
    fix s :: "int \<times> int list \<times> int"
    assume I: "?I s"
    then obtain l lps n where s: "s = (int l, lps, int n)" and inv: "lps_inv p l lps n"
      by (cases s) auto
    show "?b s = Returns False \<or>
          (?b s = Returns True \<and> (\<exists>s'. lps_step p s = Returns s' \<and> ?I s' \<and> ?m s' < ?m s))"
    proof (cases "n < length p")
      case False
      with s show ?thesis by simp
    next
      case n: True
      have "\<exists>s'. lps_step p s = Returns s' \<and> ?I s' \<and> ?m s' < ?m s"
      proof (cases "p ! n = p ! l")
        case True
        from lps_step_match [OF inv n True] s n show ?thesis
          by (intro exI [of _ "(int (Suc l), lps[n := int (Suc l)], int (Suc n))"])
             (auto simp del: of_nat_Suc)
      next
        case ne: False
        show ?thesis
        proof (cases "l = 0")
          case True
          with lps_step_zero [of p lps n] inv n ne s show ?thesis
            by (intro exI [of _ "(0, lps[n := 0], int (Suc n))"])
               (auto simp del: of_nat_Suc intro!: exI [of _ 0])
        next
          case False
          from lps_step_fallback [OF inv n ne False] obtain l'
            where "lps_step p (int l, lps, int n) = Returns (int l', lps, int n)" "l' < l"
              "lps_inv p l' lps n" by blast
          with s show ?thesis
            by (intro exI [of _ "(int l', lps, int n)"]) auto
        qed
      qed
      with s n show ?thesis by simp
    qed
  qed
  then obtain len lps i where w: "py_while ?b (lps_step p) (0, replicate (length p) 0, 1) = Returns (len, lps, i)"
    and I: "?I (len, lps, i)" and stop: "?b (len, lps, i) = Returns False"
    by (metis (no_types, lifting) prod_cases3)
  from I stop have "lps_ok p lps"
    by (auto simp: lps_inv_def lps_ok_def)
  with w show ?thesis by (simp add: compute_lps_def)
qed

lemma longest_border_less: "longest_border p n b \<Longrightarrow> b < n"
  by (simp add: longest_border_def is_border_def)

text \<open>
  C7. For a non-empty pattern, \<open>compute_lps\<close> returns a table as long as the pattern;
  entry \<open>i\<close> is the length of the longest proper prefix of the pattern that is also a
  suffix of its first \<open>i + 1\<close> characters. In particular entry \<open>0\<close> is \<open>0\<close> and entry
  \<open>i\<close> is at most \<open>i\<close>.
\<close>

theorem compute_lps_prefix_table:
  "pattern \<noteq> [] \<Longrightarrow>
   \<exists>lps. compute_lps pattern = Returns lps \<and> length lps = length pattern \<and> lps ! 0 = 0 \<and>
     (\<forall>i<length pattern. 0 \<le> lps ! i \<and> lps ! i \<le> int i \<and>
        (\<exists>b. lps ! i = int b \<and> is_border pattern (Suc i) b \<and>
           (\<forall>k. is_border pattern (Suc i) k \<longrightarrow> k \<le> b)))"
proof -
  assume ne: "pattern \<noteq> []"
  from compute_lps_ok [OF ne] obtain lps where r: "compute_lps pattern = Returns lps"
    and ok: "lps_ok pattern lps" by blast
  have ent: "0 \<le> lps ! i \<and> lps ! i \<le> int i \<and>
        (\<exists>b. lps ! i = int b \<and> is_border pattern (Suc i) b \<and>
           (\<forall>k. is_border pattern (Suc i) k \<longrightarrow> k \<le> b))" if "i < length pattern" for i
  proof -
    from ok that obtain b where b: "lps ! i = int b" and lb: "longest_border pattern (Suc i) b"
      by (auto simp: lps_ok_def)
    from lb have "b < Suc i" by (rule longest_border_less)
    moreover from lb have "is_border pattern (Suc i) b"
      and "\<forall>k. is_border pattern (Suc i) k \<longrightarrow> k \<le> b"
      by (auto simp: longest_border_def is_border_def)
    ultimately show ?thesis using b by auto
  qed
  from ne have "0 < length pattern" by simp
  from ent [OF this] have "lps ! 0 = 0" by simp
  with r ok ent show ?thesis by (auto simp: lps_ok_def)
qed

theorem compute_lps_prefix_table_witness:
  "''aabaaab'' \<noteq> [] \<and>
   (\<exists>lps. compute_lps ''aabaaab'' = Returns lps \<and> length lps = length ''aabaaab'' \<and> lps ! 0 = 0 \<and>
     (\<forall>i<length ''aabaaab''. 0 \<le> lps ! i \<and> lps ! i \<le> int i \<and>
        (\<exists>b. lps ! i = int b \<and> is_border ''aabaaab'' (Suc i) b \<and>
           (\<forall>k. is_border ''aabaaab'' (Suc i) k \<longrightarrow> k \<le> b))))"
  using compute_lps_prefix_table [of "''aabaaab''"] by simp

section \<open>The prefix-function scan finds every occurrence\<close>

lemma occurs_at_nth:
  assumes "p \<noteq> []"
  shows "occurs_at t p s \<longleftrightarrow> s + length p \<le> length t \<and> (\<forall>k<length p. t ! (s + k) = p ! k)"
proof (cases "s + length p \<le> length t")
  case True
  then have "take (length p) (drop s t) = p \<longleftrightarrow> (\<forall>k<length p. t ! (s + k) = p ! k)"
    by (auto simp: list_eq_iff_nth_eq)
  with True show ?thesis by (simp add: occurs_at_def)
next
  case False
  moreover from assms have "0 < length p" by simp
  ultimately have "min (length p) (length t - s) < length p" by arith
  then have "length (take (length p) (drop s t)) \<noteq> length p" by simp
  then have "take (length p) (drop s t) \<noteq> p" by metis
  with False show ?thesis by (simp add: occurs_at_def)
qed

lemma filter_upt_skip:
  assumes "a \<le> b" and "\<And>s. a \<le> s \<Longrightarrow> s < b \<Longrightarrow> \<not> P s"
  shows "filter P [0..<b] = filter P [0..<a]"
proof -
  from assms(1) have "[0..<b] = [0..<a] @ [a..<b]"
    by (metis le_add_diff_inverse upt_add_eq_append zero_le)
  moreover from assms(2) have "filter P [a..<b] = []" by (auto simp: filter_empty_conv)
  ultimately show ?thesis by simp
qed

lemma filter_upt_hit:
  assumes "a < b" and "P a" and "\<And>s. a < s \<Longrightarrow> s < b \<Longrightarrow> \<not> P s"
  shows "filter P [0..<b] = filter P [0..<a] @ [a]"
proof -
  have "filter P [0..<b] = filter P [0..<Suc a]"
    using assms by (intro filter_upt_skip) auto
  with assms(2) show ?thesis by simp
qed

lemma kmp_shift:
  assumes pre: "kmp_pre t p i j" and lb: "longest_border p j b"
  shows "kmp_pre t p i b"
    and "\<And>s. i - j < s \<Longrightarrow> s < i - b \<Longrightarrow> \<not> occurs_at t p s"
proof -
  from pre have ji: "j \<le> i" and it: "i \<le> length t" and jp: "j \<le> length p"
    and m: "\<forall>k<j. p ! k = t ! (i - j + k)" by (simp_all add: kmp_pre_def)
  from lb have bj: "b < j" and bb: "\<forall>k<b. p ! k = p ! (j - b + k)"
    and mx: "\<forall>k<j. is_border p j k \<longrightarrow> k \<le> b"
    unfolding longest_border_def is_border_nth by blast+
  have "p ! k = t ! (i - b + k)" if "k < b" for k
  proof -
    have "p ! k = p ! (j - b + k)" using bb that by simp
    also have "\<dots> = t ! (i - j + (j - b + k))" using m that bj by simp
    also have "i - j + (j - b + k) = i - b + k" using bj ji by simp
    finally show ?thesis .
  qed
  with bj ji it jp show "kmp_pre t p i b" by (simp add: kmp_pre_def)
  fix s assume s: "i - j < s" "s < i - b"
  show "\<not> occurs_at t p s"
  proof
    assume "occurs_at t p s"
    moreover from bj jp have "p \<noteq> []" by auto
    ultimately have occ: "\<forall>k<length p. t ! (s + k) = p ! k" by (simp add: occurs_at_nth)
    define c where "c = i - s"
    from s ji have c: "b < c" "c < j" "s = i - c" "c \<le> i" by (auto simp: c_def)
    have "p ! k = p ! (j - c + k)" if "k < c" for k
    proof -
      have "p ! k = t ! (s + k)" using occ that c jp by simp
      also have "s + k = i - j + (j - c + k)" using c ji by simp
      also have "t ! \<dots> = p ! (j - c + k)" using m that c by simp
      finally show ?thesis .
    qed
    with c jp have "is_border p j c" by (simp add: is_border_nth)
    with mx c show False by auto
  qed
qed

lemma kmp_mismatch_no_occurrence:
  assumes "kmp_pre t p i j" "j < length p" "i < length t" "p ! j \<noteq> t ! i"
  shows "\<not> occurs_at t p (i - j)"
proof
  assume "occurs_at t p (i - j)"
  moreover from assms(2) have "p \<noteq> []" by auto
  ultimately have "t ! (i - j + j) = p ! j" using assms(2) by (simp add: occurs_at_nth)
  with assms show False by (simp add: kmp_pre_def)
qed

lemma lps_ok_entry:
  assumes "lps_ok p lps" "0 < j" "j \<le> length p"
  shows "\<exists>b. py_index lps (int j - 1) = Returns (int b) \<and> longest_border p j b"
proof -
  from assms have len: "length lps = length p"
    and all: "\<forall>k<length p. \<exists>b. lps ! k = int b \<and> longest_border p (Suc k) b"
    by (simp_all add: lps_ok_def)
  from assms have "j - 1 < length p" by simp
  with all obtain b where b: "lps ! (j - 1) = int b" and lb: "longest_border p (Suc (j - 1)) b"
    by blast
  from assms len have "py_index lps (int (j - 1)) = Returns (lps ! (j - 1))"
    by (intro py_index_nat) simp
  with b lb assms show ?thesis by (simp add: of_nat_diff)
qed

lemma kmp_decide_full:
  assumes ok: "lps_ok p lps" and inv: "kmp_inv t p ms i j" and j: "j = length p" and ne: "p \<noteq> []"
  shows "\<exists>ms' b. kmp_decide t p lps (ms, int i, int j) = Returns (ms', int i, int b)
           \<and> kmp_inv t p ms' i b \<and> b < j"
proof -
  from ne j have j0: "0 < j" by simp
  from lps_ok_entry [OF ok j0] j obtain b
    where idx: "py_index lps (int j - 1) = Returns (int b)" and lb: "longest_border p j b"
    by auto
  from inv have pre: "kmp_pre t p i j" and ms: "ms = map int (filter (occurs_at t p) [0..<i - j])"
    by (simp_all add: kmp_inv_def)
  from lb have bj: "b < j" by (rule longest_border_less)
  from pre have ji: "j \<le> i" and it: "i \<le> length t" by (simp_all add: kmp_pre_def)
  from pre j ji it ne have occ: "occurs_at t p (i - j)"
    by (auto simp: occurs_at_nth kmp_pre_def)
  have "filter (occurs_at t p) [0..<i - b] = filter (occurs_at t p) [0..<i - j] @ [i - j]"
    using bj ji occ kmp_shift(2) [OF pre lb] by (intro filter_upt_hit) auto
  with ms have "ms @ [int i - int j] = map int (filter (occurs_at t p) [0..<i - b])"
    using ji by (simp add: of_nat_diff)
  with kmp_shift(1) [OF pre lb] have "kmp_inv t p (ms @ [int i - int j]) i b"
    by (simp add: kmp_inv_def)
  moreover from j idx have "kmp_decide t p lps (ms, int i, int j) = Returns (ms @ [int i - int j], int i, int b)"
    by (simp add: kmp_decide_def)
  ultimately show ?thesis using bj by blast
qed

lemma kmp_decide_mismatch:
  assumes ok: "lps_ok p lps" and inv: "kmp_inv t p ms i j" and j: "j < length p"
    and i: "i < length t" and ne: "p ! j \<noteq> t ! i"
  shows "\<exists>i' j'. kmp_decide t p lps (ms, int i, int j) = Returns (ms, int i', int j')
           \<and> kmp_inv t p ms i' j' \<and> j' < length p \<and> i \<le> i'
           \<and> 2 * (length t - i') + j' < 2 * (length t - i) + j"
proof -
  from inv have pre: "kmp_pre t p i j" and ms: "ms = map int (filter (occurs_at t p) [0..<i - j])"
    by (simp_all add: kmp_inv_def)
  from pre have ji: "j \<le> i" by (simp add: kmp_pre_def)
  have nocc: "\<not> occurs_at t p (i - j)"
    using pre j i ne by (rule kmp_mismatch_no_occurrence)
  have mm: "(if int i < int (length t) then
              and_then (py_index p (int j)) (\<lambda>a. and_then (py_index t (int i)) (\<lambda>b. Returns (a \<noteq> b)))
            else Returns False) = Returns True"
    using i j ne by (simp add: py_index_nat)
  show ?thesis
  proof (cases "j = 0")
    case True
    from j True have "py_index p 0 = Returns (p ! 0)" by (auto simp: py_index_def)
    with True i j ne have "kmp_decide t p lps (ms, int i, int j) = Returns (ms, int (Suc i), int 0)"
      by (simp add: kmp_decide_def py_index_nat add.commute)
    moreover have "filter (occurs_at t p) [0..<Suc i] = filter (occurs_at t p) [0..<i]"
      using nocc True by simp
    with ms True i have "kmp_inv t p ms (Suc i) 0"
      by (simp add: kmp_inv_def kmp_pre_def)
    ultimately show ?thesis using True i j
      by (intro exI [of _ "Suc i"] exI [of _ 0]) auto
  next
    case False
    then have j0: "0 < j" by simp
    from lps_ok_entry [OF ok j0] j obtain b
      where idx: "py_index lps (int j - 1) = Returns (int b)" and lb: "longest_border p j b"
      by auto
    from lb have bj: "b < j" by (rule longest_border_less)
    from False mm j idx have "kmp_decide t p lps (ms, int i, int j) = Returns (ms, int i, int b)"
      by (simp add: kmp_decide_def)
    moreover have "filter (occurs_at t p) [0..<i - b] = filter (occurs_at t p) [0..<i - j]"
    proof (rule filter_upt_skip)
      show "i - j \<le> i - b" using bj by simp
      fix s assume "i - j \<le> s" "s < i - b"
      then show "\<not> occurs_at t p s"
        using nocc kmp_shift(2) [OF pre lb, of s] by (cases "s = i - j") auto
    qed
    with ms kmp_shift(1) [OF pre lb] have "kmp_inv t p ms i b" by (simp add: kmp_inv_def)
    ultimately show ?thesis using bj j
      by (intro exI [of _ i] exI [of _ b]) auto
  qed
qed

lemma kmp_decide_keep:
  assumes j: "j < length p" and no: "\<not> (i < length t \<and> p ! j \<noteq> t ! i)"
  shows "kmp_decide t p lps (ms, int i, int j) = Returns (ms, int i, int j)"
  using assms by (auto simp: kmp_decide_def py_index_nat)

lemma kmp_step_ok:
  assumes ok: "lps_ok p lps" and inv: "kmp_inv t p ms i j" and j: "j < length p"
    and i: "i < length t"
  shows "\<exists>ms' i' j'. kmp_step t p lps (ms, int i, int j) = Returns (ms', int i', int j')
           \<and> kmp_inv t p ms' i' j' \<and> j' < length p
           \<and> 2 * (length t - i') + j' < 2 * (length t - i) + j"
proof (cases "p ! j = t ! i")
  case False
  with i j have st: "kmp_step t p lps (ms, int i, int j) = kmp_decide t p lps (ms, int i, int j)"
    by (simp add: kmp_step_def py_index_nat)
  from kmp_decide_mismatch [OF ok inv j i False] show ?thesis
    unfolding st by blast
next
  case True
  with i j have st: "kmp_step t p lps (ms, int i, int j) = kmp_decide t p lps (ms, int (Suc i), int (Suc j))"
    by (simp add: kmp_step_def py_index_nat add.commute)
  from inv have pre: "kmp_pre t p i j" and ms: "ms = map int (filter (occurs_at t p) [0..<i - j])"
    by (simp_all add: kmp_inv_def)
  have "p ! k = t ! (Suc i - Suc j + k)" if "k < Suc j" for k
    using that pre True by (cases "k = j") (auto simp: kmp_pre_def)
  with pre i j have "kmp_pre t p (Suc i) (Suc j)" by (simp add: kmp_pre_def)
  with ms have inv': "kmp_inv t p ms (Suc i) (Suc j)" by (simp add: kmp_inv_def)
  from j have ne: "p \<noteq> []" by auto
  consider (full) "Suc j = length p"
    | (mis) "Suc j < length p" "Suc i < length t" "p ! Suc j \<noteq> t ! Suc i"
    | (keep) "Suc j < length p" "\<not> (Suc i < length t \<and> p ! Suc j \<noteq> t ! Suc i)"
    using j by linarith
  then show ?thesis
  proof cases
    case full
    from kmp_decide_full [OF ok inv' full ne] obtain ms' b
      where "kmp_decide t p lps (ms, int (Suc i), int (Suc j)) = Returns (ms', int (Suc i), int b)"
        "kmp_inv t p ms' (Suc i) b" "b < Suc j" by blast
    with st i j show ?thesis
      by (intro exI [of _ ms'] exI [of _ "Suc i"] exI [of _ b]) auto
  next
    case mis
    from kmp_decide_mismatch [OF ok inv' mis] obtain i' j'
      where "kmp_decide t p lps (ms, int (Suc i), int (Suc j)) = Returns (ms, int i', int j')"
        "kmp_inv t p ms i' j'" "j' < length p" "Suc i \<le> i'"
        "2 * (length t - i') + j' < 2 * (length t - Suc i) + Suc j" by blast
    with st i show ?thesis
      by (intro exI [of _ ms] exI [of _ i'] exI [of _ j']) auto
  next
    case keep
    from kmp_decide_keep [OF keep] st inv' keep(1) i show ?thesis
      by (intro exI [of _ ms] exI [of _ "Suc i"] exI [of _ "Suc j"]) auto
  qed
qed

lemma occurrences_Nil: "occurrences t [] = map int [0..<length t]"
  by (simp add: occurrences_def occurs_at_def)

lemma kmp_search_occurrences:
  assumes ne: "p \<noteq> []"
  shows "kmp_search t p = Returns (occurrences t p)"
proof -
  from compute_lps_ok [OF ne] obtain lps where lps: "compute_lps p = Returns lps"
    and ok: "lps_ok p lps" by blast
  let ?I = "\<lambda>(ms, i, j). \<exists>i' j'. i = int i' \<and> j = int j' \<and> kmp_inv t p ms i' j' \<and> j' < length p"
  let ?m = "\<lambda>(ms :: int list, i, j). 2 * (length t - nat i) + nat j"
  let ?b = "\<lambda>(ms :: int list, i, j :: int). Returns (i < int (length t))"
  have "\<exists>s. py_while ?b (kmp_step t p lps) ([], 0, 0) = Returns s \<and> ?I s \<and> ?b s = Returns False"
  proof (rule py_while_total [where I = ?I and m = ?m])
    from ne show "?I ([], 0, 0)"
      by (auto simp: kmp_inv_def kmp_pre_def intro!: exI [of _ 0])
  next
    fix s :: "int list \<times> int \<times> int"
    assume "?I s"
    then obtain ms i j where s: "s = (ms, int i, int j)" and inv: "kmp_inv t p ms i j"
      and j: "j < length p" by (cases s) auto
    show "?b s = Returns False \<or>
          (?b s = Returns True \<and> (\<exists>s'. kmp_step t p lps s = Returns s' \<and> ?I s' \<and> ?m s' < ?m s))"
    proof (cases "i < length t")
      case False
      with s show ?thesis by simp
    next
      case True
      from kmp_step_ok [OF ok inv j True] obtain ms' i' j'
        where "kmp_step t p lps (ms, int i, int j) = Returns (ms', int i', int j')"
          "kmp_inv t p ms' i' j'" "j' < length p"
          "2 * (length t - i') + j' < 2 * (length t - i) + j" by blast
      with s True show ?thesis
        by (auto intro!: exI [of _ "(ms', int i', int j')"])
    qed
  qed
  then obtain ms i j where w: "py_while ?b (kmp_step t p lps) ([], 0, 0) = Returns (ms, i, j)"
    and I: "?I (ms, i, j)" and stop: "?b (ms, i, j) = Returns False"
    by (metis (no_types, lifting) prod_cases3)
  from I obtain i' j' where ij: "i = int i'" "j = int j'" and inv: "kmp_inv t p ms i' j'"
    and j': "j' < length p" by auto
  from inv have pre: "kmp_pre t p i' j'" and ms: "ms = map int (filter (occurs_at t p) [0..<i' - j'])"
    by (simp_all add: kmp_inv_def)
  from pre stop ij have i': "i' = length t" by (simp add: kmp_pre_def)
  have "filter (occurs_at t p) [0..<length t] = filter (occurs_at t p) [0..<length t - j']"
    using j' ne by (intro filter_upt_skip) (auto simp: occurs_at_nth)
  with ms i' have "ms = occurrences t p" by (simp add: occurrences_def)
  with w lps ne show ?thesis by (simp add: kmp_search_def)
qed

section \<open>The dispatcher on a single pattern\<close>

lemma kmp_search_returns: "kmp_search t p = Returns (if p = [] then [] else occurrences t p)"
  by (simp add: kmp_search_occurrences) (simp add: kmp_search_def)

lemma search_single:
  "search lower t (Single sub) cs m c =
     Returns
       (if t = [] \<or> sub = [] \<or> cased lower cs sub = []
           \<or> occurrences (cased lower cs t) (cased lower cs sub) = []
        then Absent
        else positions_result
               (direct_and_limit m c (occurrences (cased lower cs t) (cased lower cs sub))))"
  by (simp add: search_def kmp_search_returns tuple_or_none_def positions_result_def Let_def)

lemma direct_and_limit_other:
  "m \<noteq> ''last'' \<Longrightarrow> direct_and_limit m c xs = direct_and_limit ''first'' c xs"
  by (simp add: direct_and_limit_def)

lemma update_map_value:
  "map (\<lambda>(k, v). (k, h v)) (AList.update a b al) = AList.update a (h b) (map (\<lambda>(k, v). (k, h v)) al)"
  by (induction al) auto

lemma regroup_fold_map:
  assumes "\<And>s. f' s = h (f s)"
  shows "fold (\<lambda>s. AList.update s (f' s)) subs (map (\<lambda>(k, v). (k, h v)) acc) =
         map (\<lambda>(k, v). (k, h v)) (fold (\<lambda>s. AList.update s (f s)) subs acc)"
  by (induction subs arbitrary: acc) (simp_all add: assms update_map_value [symmetric])

lemma tuple_or_none_rev: "tuple_or_none (rev xs) = map_option rev (tuple_or_none xs)"
  by (simp add: tuple_or_none_def)

lemma regroup_rev:
  "regroup lower cs subs (rev xs) = map (\<lambda>(k, v). (k, map_option rev v)) (regroup lower cs subs xs)"
proof -
  let ?f = "\<lambda>ys s. tuple_or_none (map fst (filter (\<lambda>(pos, p). p = cased lower cs s) ys))"
  have "fold (\<lambda>s. AList.update s (?f (rev xs) s)) subs (map (\<lambda>(k, v). (k, map_option rev v)) []) =
        map (\<lambda>(k, v). (k, map_option rev v)) (fold (\<lambda>s. AList.update s (?f xs s)) subs [])"
    by (rule regroup_fold_map) (simp add: tuple_or_none_rev [symmetric] rev_map rev_filter)
  then show ?thesis by (simp add: regroup_def)
qed

lemma merged_results_last:
  "merged_results ''last'' None am = rev (merged_results ''first'' None am)"
  by (simp add: merged_results_def direct_and_limit_def)

lemma list_ex_map_value:
  "list_ex (\<lambda>(k, v). v \<noteq> None) (map (\<lambda>(k, v). (k, map_option h v)) al) = list_ex (\<lambda>(k, v). v \<noteq> None) al"
  by (induction al) auto

lemma shape_last_reverse:
  "(if list_ex (\<lambda>(original, v). v \<noteq> None) (regroup lower cs ps (merged_results ''last'' None am))
    then Mapping (regroup lower cs ps (merged_results ''last'' None am)) else Absent) =
   reverse_result
     (if list_ex (\<lambda>(original, v). v \<noteq> None) (regroup lower cs ps (merged_results ''first'' None am))
      then Mapping (regroup lower cs ps (merged_results ''first'' None am)) else Absent)"
  unfolding merged_results_last regroup_rev list_ex_map_value by simp

lemma search_last_reverse:
  "search lower t sub cs ''last'' None =
     and_then (search lower t sub cs ''first'' None) (\<lambda>r. Returns (reverse_result r))"
proof (cases sub)
  case (Single p)
  then show ?thesis
    by (simp add: search_single direct_and_limit_def positions_result_def)
next
  case (Multiple ps)
  show ?thesis
    unfolding Multiple search_def Let_def sub_string.case shape_last_reverse
    by (simp add: and_then_def split: outcome.splits)
qed
lemma py_take_nonneg: "0 \<le> k \<Longrightarrow> py_take k xs = take (nat k) xs"
  by (simp add: py_take_def)

lemma py_take_neg: "c < 0 \<Longrightarrow> py_take c xs = take (length xs - nat (- c)) xs"
  by (simp add: py_take_def)

lemma occurrences_example:
  "occurrences (cased lower_ascii False ''ababbababa'') (cased lower_ascii False ''aba'') = [0, 5, 7]"
  by code_simp



text \<open>
  C10. With a negative \<open>count = c\<close>, a single non-empty pattern and at least one
  match, \<open>search\<close> returns the matches, reversed for \<open>'last'\<close>, without their
  last \<open>|c|\<close> entries; it returns \<open>None\<close> when \<open>|c|\<close> is at least the number of
  matches. It returns in every case: nothing is raised.
\<close>

theorem search_negative_count:
  assumes "c < 0" and "t \<noteq> []" and "sub \<noteq> []" and "cased lower cs sub \<noteq> []"
    and "occurrences (cased lower cs t) (cased lower cs sub) \<noteq> []"
  shows "search lower t (Single sub) cs m (Some c) =
           Returns
             (let ms = occurrences (cased lower cs t) (cased lower cs sub);
                  directed = (if m = ''last'' then rev ms else ms);
                  kept = take (length directed - nat (- c)) directed
              in if nat (- c) \<ge> length ms then Absent else Positions kept)"
  using assms
  by (auto simp: search_single direct_and_limit_def py_take_neg positions_result_def Let_def)

theorem search_negative_count_witness:
  "(- 1 :: int) < 0 \<and> ''ababbababa'' \<noteq> [] \<and> ''aba'' \<noteq> [] \<and> cased lower_ascii False ''aba'' \<noteq> [] \<and>
   occurrences (cased lower_ascii False ''ababbababa'') (cased lower_ascii False ''aba'') \<noteq> [] \<and>
   search lower_ascii ''ababbababa'' (Single ''aba'') False ''last'' (Some (- 1)) =
     Returns (Positions [7, 5])"
proof -
  have h: "cased lower_ascii False ''aba'' \<noteq> []" by code_simp
  have o: "occurrences (cased lower_ascii False ''ababbababa'') (cased lower_ascii False ''aba'') \<noteq> []"
    by (simp add: occurrences_example)
  from search_negative_count [of "- 1" "''ababbababa''" "''aba''" lower_ascii False "''last''", OF _ _ _ h o]
  show ?thesis using h by (simp add: occurrences_example)
qed
text \<open>
  C2, as stated, fails: with \<open>count = 0\<close> the dispatcher returns \<open>None\<close>, not
  a sequence of length \<open>0\<close>.
\<close>

theorem search_limit_zero_counterexample:
  "search lower_ascii ''a'' (Single ''a'') False ''first'' (Some 0) = Returns Absent \<and>
   search lower_ascii ''a'' (Single ''a'') False ''first'' (Some 0) \<noteq> Returns (Positions [])"
  by (simp add: search_single) code_simp

text \<open>
  C2, amended. For a single non-empty pattern, direction \<open>'first'\<close>, case folding on
  and \<open>count = k \<ge> 0\<close>: with \<open>total\<close> the number of occurrences of the lowercased
  pattern in the lowercased text, the result is \<open>None\<close> when \<open>min k total = 0\<close>, and
  otherwise the sequence of the first \<open>min k total\<close> occurrences. \<open>lower\<close> maps the
  empty string, and only it, to the empty string.
\<close>

theorem search_limit_length:
  assumes "0 \<le> k" and "sub \<noteq> []" and "\<forall>s. lower s = [] \<longleftrightarrow> s = []"
  shows "(min k (int (length (occurrences (lower t) (lower sub)))) = 0 \<longrightarrow>
            search lower t (Single sub) False ''first'' (Some k) = Returns Absent) \<and>
         (0 < min k (int (length (occurrences (lower t) (lower sub)))) \<longrightarrow>
            (\<exists>ps. search lower t (Single sub) False ''first'' (Some k) = Returns (Positions ps) \<and>
                  ps = take (nat k) (occurrences (lower t) (lower sub)) \<and>
                  int (length ps) = min k (int (length (occurrences (lower t) (lower sub))))))"
proof -
  from assms(3) have e: "lower [] = []" by simp
  from assms(2,3) have ne: "lower sub \<noteq> []" by simp
  have o: "t = [] \<Longrightarrow> occurrences (lower t) (lower sub) = []"
    by (simp add: e occurrences_def)
  show ?thesis
    using assms(1,2) ne o
    by (auto simp: search_single cased_def direct_and_limit_def py_take_nonneg
          positions_result_def min_def)
qed

theorem search_limit_length_witness:
  "(0::int) \<le> 2 \<and> ''aba'' \<noteq> [] \<and> 
   0 < min 2 (int (length (occurrences (lower_ascii ''ababbababa'') (lower_ascii ''aba'')))) \<and>
   search lower_ascii ''ababbababa'' (Single ''aba'') False ''first'' (Some 2) = Returns (Positions [0, 5])"
proof -
  have l: "\<forall>s. lower_ascii s = [] \<longleftrightarrow> s = []" by (simp add: lower_ascii_def)
  have o: "occurrences (lower_ascii ''ababbababa'') (lower_ascii ''aba'') = [0, 5, 7]"
    by code_simp
  from search_limit_length [of 2 "''aba''" lower_ascii "''ababbababa''", OF _ _ l]
  show ?thesis by (simp add: o)
qed

section \<open>The shift scans find every occurrence\<close>

lemma filter_upt_bound:
  assumes "\<And>q. P q \<Longrightarrow> q < a" and "\<And>q. P q \<Longrightarrow> q < b"
  shows "filter P [0..<a] = filter P [0..<b]"
proof (cases "a \<le> b")
  case True
  have "filter P [0..<b] = filter P [0..<a]"
    using True by (intro filter_upt_skip) (auto dest!: assms(1))
  then show ?thesis by simp
next
  case False
  then show ?thesis by (intro filter_upt_skip) (auto dest!: assms(2))
qed

lemma occurs_at_bound:
  assumes "p \<noteq> []" "occurs_at t p s"
  shows "s + length p \<le> length t" and "s < length t"
proof -
  from assms show "s + length p \<le> length t" by (simp add: occurs_at_nth)
  moreover from assms(1) have "0 < length p" by simp
  ultimately show "s < length t" by linarith
qed

text \<open>A table filled left to right keeps, for every character, its last index.\<close>

lemma last_index_table:
  assumes "n \<le> length p"
  shows "(fold (\<lambda>i table. table(p ! i \<mapsto> g i)) [0..<n] Map.empty c = None \<longleftrightarrow> (\<forall>i<n. p ! i \<noteq> c)) \<and>
         (\<forall>v. fold (\<lambda>i table. table(p ! i \<mapsto> g i)) [0..<n] Map.empty c = Some v \<longrightarrow>
            (\<exists>i<n. v = g i \<and> p ! i = c \<and> (\<forall>i'. i < i' \<and> i' < n \<longrightarrow> p ! i' \<noteq> c)))"
  using assms
proof (induction n)
  case 0
  then show ?case by simp
next
  case (Suc n)
  define T where "T = fold (\<lambda>i table. table(p ! i \<mapsto> g i)) [0..<n] Map.empty"
  from Suc.prems have "n \<le> length p" by simp
  from Suc.IH [OF this] have IH1: "T c = None \<longleftrightarrow> (\<forall>i<n. p ! i \<noteq> c)"
    and IH2: "\<And>v. T c = Some v \<Longrightarrow>
            (\<exists>i<n. v = g i \<and> p ! i = c \<and> (\<forall>i'. i < i' \<and> i' < n \<longrightarrow> p ! i' \<noteq> c))"
    unfolding T_def by blast+
  have step: "fold (\<lambda>i table. table(p ! i \<mapsto> g i)) [0..<Suc n] Map.empty = T(p ! n \<mapsto> g n)"
    by (simp add: T_def)
  show ?case
  proof (cases "p ! n = c")
    case True
    then show ?thesis unfolding step by (auto intro!: exI [of _ n])
  next
    case False
    have "\<exists>i<Suc n. v = g i \<and> p ! i = c \<and> (\<forall>i'. i < i' \<and> i' < Suc n \<longrightarrow> p ! i' \<noteq> c)"
      if "T c = Some v" for v
    proof -
      from IH2 [OF that] obtain i where i: "i < n" "v = g i" "p ! i = c"
        "\<forall>i'. i < i' \<and> i' < n \<longrightarrow> p ! i' \<noteq> c" by blast
      with False have "\<forall>i'. i < i' \<and> i' < Suc n \<longrightarrow> p ! i' \<noteq> c"
        by (auto simp: less_Suc_eq)
      with i show ?thesis by (intro exI [of _ i]) simp
    qed
    moreover from False IH1 have "T c = None \<longleftrightarrow> (\<forall>i<Suc n. p ! i \<noteq> c)"
      by (auto simp: less_Suc_eq)
    ultimately show ?thesis unfolding step using False by simp
  qed
qed

text \<open>The right-to-left comparison at an alignment that fits into the text.\<close>

lemma compare_loop:
  assumes fit: "s + length p \<le> length t" and ne: "p \<noteq> []"
    and cond: "\<And>j. 0 \<le> j \<Longrightarrow> j < int (length p) \<Longrightarrow> b j = Returns (p ! nat j = t ! (s + nat j))"
    and neg: "\<And>j. j < 0 \<Longrightarrow> b j = Returns False"
  shows "\<exists>j. py_while b (\<lambda>j. Returns (j - 1)) (int (length p) - 1) = Returns j \<and>
           - 1 \<le> j \<and> j < int (length p) \<and>
           (\<forall>k. j < int k \<and> k < length p \<longrightarrow> p ! k = t ! (s + k)) \<and>
           (0 \<le> j \<longrightarrow> p ! nat j \<noteq> t ! (s + nat j))"
proof -
  let ?I = "\<lambda>j. - 1 \<le> j \<and> j < int (length p) \<and> (\<forall>k. j < int k \<and> k < length p \<longrightarrow> p ! k = t ! (s + k))"
  have "\<exists>j. py_while b (\<lambda>j. Returns (j - 1)) (int (length p) - 1) = Returns j \<and> ?I j \<and> b j = Returns False"
  proof (rule py_while_total [where I = ?I and m = "\<lambda>j. nat (j + 1)"])
    from ne show "?I (int (length p) - 1)" by auto
  next
    fix j assume I: "?I j"
    show "b j = Returns False \<or>
          (b j = Returns True \<and> (\<exists>s'. Returns (j - 1) = Returns s' \<and> ?I s' \<and> nat (s' + 1) < nat (j + 1)))"
    proof (cases "0 \<le> j")
      case False
      then show ?thesis by (simp add: neg)
    next
      case True
      with I have bj: "b j = Returns (p ! nat j = t ! (s + nat j))" by (simp add: cond)
      show ?thesis
      proof (cases "p ! nat j = t ! (s + nat j)")
        case False
        with bj show ?thesis by simp
      next
        case eq: True
        have "p ! k = t ! (s + k)" if "j - 1 < int k" "k < length p" for k
        proof (cases "int k = j")
          case True
          then have "k = nat j" by simp
          with eq show ?thesis by simp
        next
          case False
          with that I show ?thesis by auto
        qed
        with I True bj eq show ?thesis by auto
      qed
    qed
  qed
  then obtain j where w: "py_while b (\<lambda>j. Returns (j - 1)) (int (length p) - 1) = Returns j"
    and I: "?I j" and stop: "b j = Returns False" by blast
  have "p ! nat j \<noteq> t ! (s + nat j)" if "0 \<le> j"
    using cond [OF that] I stop by auto
  with w I show ?thesis by blast
qed

lemma compare_loop_occurs:
  assumes "s + length p \<le> length t" "p \<noteq> []"
    and "\<forall>k. j < int k \<and> k < length p \<longrightarrow> p ! k = t ! (s + k)"
    and "0 \<le> j \<longrightarrow> p ! nat j \<noteq> t ! (s + nat j)" and "j < int (length p)"
  shows "occurs_at t p s \<longleftrightarrow> j < 0"
proof
  assume "occurs_at t p s"
  with assms(2) have all: "\<forall>k<length p. t ! (s + k) = p ! k" by (simp add: occurs_at_nth)
  show "j < 0"
  proof (rule ccontr)
    assume "\<not> j < 0"
    then have "0 \<le> j" by simp
    with assms(4,5) all show False by (auto dest!: spec [of _ "nat j"])
  qed
next
  assume "j < 0"
  with assms show "occurs_at t p s" by (auto simp: occurs_at_nth)
qed

lemma bm_compare_result:
  assumes fit: "s + length p \<le> length t" and ne: "p \<noteq> []"
  shows "\<exists>j. bm_compare t p (int s) = Returns j \<and> - 1 \<le> j \<and> j < int (length p) \<and>
           (\<forall>k. j < int k \<and> k < length p \<longrightarrow> p ! k = t ! (s + k)) \<and>
           (0 \<le> j \<longrightarrow> p ! nat j \<noteq> t ! (s + nat j))"
  unfolding bm_compare_def
proof (rule compare_loop [OF fit ne])
  fix j :: int assume j: "0 \<le> j" "j < int (length p)"
  then have "py_index p j = Returns (p ! nat j)"
    using py_index_nat [of "nat j" p] by simp
  moreover have "py_index t (int s + j) = Returns (t ! (s + nat j))"
    using py_index_nat [of "s + nat j" t] j fit by (simp add: nat_add_distrib)
  ultimately show "(if 0 \<le> j then and_then (py_index p j)
           (\<lambda>a. and_then (py_index t (int s + j)) (\<lambda>b. Returns (a = b))) else Returns False)
        = Returns (p ! nat j = t ! (s + nat j))"
    using j by simp
qed simp

lemma horspool_compare_result:
  assumes fit: "s + length p \<le> length t" and ne: "p \<noteq> []"
  shows "\<exists>j. horspool_compare t p (int s) = Returns j \<and> - 1 \<le> j \<and> j < int (length p) \<and>
           (\<forall>k. j < int k \<and> k < length p \<longrightarrow> p ! k = t ! (s + k)) \<and>
           (0 \<le> j \<longrightarrow> p ! nat j \<noteq> t ! (s + nat j))"
  unfolding horspool_compare_def
proof (rule compare_loop [OF fit ne])
  fix j :: int assume j: "0 \<le> j" "j < int (length p)"
  then have "py_index p j = Returns (p ! nat j)"
    using py_index_nat [of "nat j" p] by simp
  moreover have "py_index t (int s + j) = Returns (t ! (s + nat j))"
    using py_index_nat [of "s + nat j" t] j fit by (simp add: nat_add_distrib)
  ultimately show "(if 0 \<le> j then and_then (py_index t (int s + j))
           (\<lambda>a. and_then (py_index p j) (\<lambda>b. Returns (a = b))) else Returns False)
        = Returns (p ! nat j = t ! (s + nat j))"
    using j by auto
qed simp
lemma bad_char_last:
  "bad_char_table p c = None \<Longrightarrow> \<forall>i<length p. p ! i \<noteq> c"
  "bad_char_table p c = Some v \<Longrightarrow>
     \<exists>i<length p. v = int i \<and> p ! i = c \<and> (\<forall>i'. i < i' \<and> i' < length p \<longrightarrow> p ! i' \<noteq> c)"
  using last_index_table [of "length p" p int c] by (simp_all add: bad_char_table_def)

lemma bm_shift_safe:
  assumes ne: "p \<noteq> []" and k: "k < length p" and c: "c = t ! (s + k)"
    and e: "0 < e" "int e < max 1 (int k - (case bad_char_table p c of None \<Rightarrow> - 1 | Some v \<Rightarrow> v))"
  shows "\<not> occurs_at t p (s + e)"
proof
  assume "occurs_at t p (s + e)"
  with ne have all: "\<forall>q<length p. t ! (s + e + q) = p ! q" by (simp add: occurs_at_nth)
  show False
  proof (cases "bad_char_table p c")
    case None
    with e have "e \<le> k" by simp
    with all k have "p ! (k - e) = t ! (s + k)" by (auto dest!: spec [of _ "k - e"])
    with bad_char_last(1) [OF None] k c show False by auto
  next
    case (Some v)
    from bad_char_last(2) [OF Some] obtain i where i: "i < length p" "v = int i" "p ! i = c"
      "\<forall>i'. i < i' \<and> i' < length p \<longrightarrow> p ! i' \<noteq> c" by blast
    from e Some i have ek: "i + e < k" by simp
    with all k have "p ! (k - e) = t ! (s + k)" by (auto dest!: spec [of _ "k - e"])
    with i(4) ek k c show False by (auto dest!: spec [of _ "k - e"])
  qed
qed

lemma bm_step_ok:
  assumes fit: "s + length p \<le> length t" and ne: "p \<noteq> []"
    and ms: "ms = map int (filter (occurs_at t p) [0..<s])"
  shows "\<exists>ms' s'. bm_step t p (bad_char_table p) (ms, int s) = Returns (ms', int s') \<and> s < s' \<and>
           ms' = map int (filter (occurs_at t p) [0..<s'])"
proof -
  from bm_compare_result [OF fit ne] obtain j where cmp: "bm_compare t p (int s) = Returns j"
    and j: "- 1 \<le> j" "j < int (length p)"
    and above: "\<forall>k. j < int k \<and> k < length p \<longrightarrow> p ! k = t ! (s + k)"
    and at: "0 \<le> j \<longrightarrow> p ! nat j \<noteq> t ! (s + nat j)" by blast
  have occ: "occurs_at t p s \<longleftrightarrow> j < 0"
    using fit ne above at j(2) by (rule compare_loop_occurs)
  show ?thesis
  proof (cases "j < 0")
    case True
    with cmp have "bm_step t p (bad_char_table p) (ms, int s) = Returns (ms @ [int s], int (Suc s))"
      by (simp add: bm_step_def add.commute)
    moreover from True occ ms have "ms @ [int s] = map int (filter (occurs_at t p) [0..<Suc s])"
      by simp
    ultimately show ?thesis by (intro exI [of _ "ms @ [int s]"] exI [of _ "Suc s"]) simp
  next
    case False
    define k where "k = nat j"
    from False j have k: "j = int k" "k < length p" by (simp_all add: k_def)
    define c where "c = t ! (s + k)"
    define d where "d = nat (max 1 (int k - (case bad_char_table p c of None \<Rightarrow> - 1 | Some v \<Rightarrow> v)))"
    have d: "0 < d" "int d = max 1 (int k - (case bad_char_table p c of None \<Rightarrow> - 1 | Some v \<Rightarrow> v))"
      by (simp_all add: d_def)
    have idx: "py_index t (int s + j) = Returns c"
      using py_index_nat [of "s + k" t] k fit by (simp add: c_def)
    from False cmp idx d(2) have "bm_step t p (bad_char_table p) (ms, int s) = Returns (ms, int (s + d))"
      by (simp add: bm_step_def k(1))
    moreover have "filter (occurs_at t p) [0..<s + d] = filter (occurs_at t p) [0..<s]"
    proof (rule filter_upt_skip)
      fix q assume q: "s \<le> q" "q < s + d"
      show "\<not> occurs_at t p q"
      proof (cases "q = s")
        case True
        with occ False show ?thesis by simp
      next
        case False
        define e where "e = q - s"
        from False q have e: "0 < e" "int e < int d" "q = s + e" by (simp_all add: e_def)
        from bm_shift_safe [OF ne k(2) c_def e(1)] e(2) d(2) show ?thesis
          unfolding e(3) by simp
      qed
    qed simp
    ultimately show ?thesis using ms d(1)
      by (intro exI [of _ ms] exI [of _ "s + d"]) simp
  qed
qed

lemma shift_scan_loop:
  assumes ne: "p \<noteq> []"
    and step: "\<And>ms s. s + length p \<le> length t \<Longrightarrow> ms = map int (filter (occurs_at t p) [0..<s]) \<Longrightarrow>
       \<exists>ms' s'. c (ms, int s) = Returns (ms', int s') \<and> s < s' \<and>
           ms' = map int (filter (occurs_at t p) [0..<s'])"
  shows "and_then
          (py_while (\<lambda>(matches, shift). Returns (shift \<le> int (length t) - int (length p))) c ([], 0))
          (\<lambda>(matches, shift). Returns matches) = Returns (occurrences t p)"
proof -
  let ?I = "\<lambda>(ms, sh). \<exists>s. sh = int s \<and> ms = map int (filter (occurs_at t p) [0..<s])"
  let ?m = "\<lambda>(ms :: int list, sh). nat (int (length t) + 1 - sh)"
  let ?b = "\<lambda>(matches :: int list, shift). Returns (shift \<le> int (length t) - int (length p))"
  have "\<exists>r. py_while ?b c ([], 0) = Returns r \<and> ?I r \<and> ?b r = Returns False"
  proof (rule py_while_total [where I = ?I and m = ?m])
    show "?I ([], 0)" by (auto intro!: exI [of _ 0])
  next
    fix r :: "int list \<times> int"
    assume "?I r"
    then obtain ms s where r: "r = (ms, int s)" and ms: "ms = map int (filter (occurs_at t p) [0..<s])"
      by (cases r) auto
    show "?b r = Returns False \<or>
          (?b r = Returns True \<and> (\<exists>s'. c r = Returns s' \<and> ?I s' \<and> ?m s' < ?m r))"
    proof (cases "int s \<le> int (length t) - int (length p)")
      case False
      with r show ?thesis by simp
    next
      case True
      then have fit: "s + length p \<le> length t" by linarith
      from step [OF fit ms] obtain ms' s' where st: "c (ms, int s) = Returns (ms', int s')"
        and lt: "s < s'" and ms': "ms' = map int (filter (occurs_at t p) [0..<s'])" by blast
      from lt fit have "nat (int (length t) + 1 - int s') < nat (int (length t) + 1 - int s)"
        by linarith
      with st ms' r True show ?thesis
        by (auto intro!: exI [of _ "(ms', int s')"])
    qed
  qed
  then obtain ms sh where w: "py_while ?b c ([], 0) = Returns (ms, sh)"
    and I: "?I (ms, sh)" and stop: "?b (ms, sh) = Returns False"
    by (metis (no_types, lifting) prod.collapse)
  from I obtain s where s: "sh = int s" and ms: "ms = map int (filter (occurs_at t p) [0..<s])"
    by auto
  from stop s have gt: "int (length t) - int (length p) < int s" by simp
  have "filter (occurs_at t p) [0..<s] = filter (occurs_at t p) [0..<length t]"
  proof (rule filter_upt_bound)
    fix q assume "occurs_at t p q"
    from occurs_at_bound [OF ne this] gt show "q < s" "q < length t" by linarith+
  qed
  with ms have "ms = occurrences t p" by (simp add: occurrences_def)
  with w show ?thesis by simp
qed

lemma boyer_moore_search_occurrences:
  assumes "p \<noteq> []"
  shows "boyer_moore_search t p = Returns (occurrences t p)"
  using assms shift_scan_loop [OF assms, of t "bm_step t p (bad_char_table p)"] bm_step_ok [OF _ assms]
  by (simp add: boyer_moore_search_def)
lemma horspool_skip_last:
  assumes "p \<noteq> []"
  shows "horspool_skip p c = None \<Longrightarrow> \<forall>i<length p - 1. p ! i \<noteq> c"
    and "horspool_skip p c = Some v \<Longrightarrow>
     \<exists>i<length p - 1. v = int (length p) - int i - 1 \<and> p ! i = c \<and>
        (\<forall>i'. i < i' \<and> i' < length p - 1 \<longrightarrow> p ! i' \<noteq> c)"
  using last_index_table [of "length p - 1" p "\<lambda>i. int (length p) - int i - 1" c]
  by (simp_all add: horspool_skip_def)

lemma horspool_shift_safe:
  assumes ne: "p \<noteq> []" and fit: "s + length p \<le> length t" and c: "c = t ! (s + length p - 1)"
    and e: "0 < e" "int e < (case horspool_skip p c of None \<Rightarrow> int (length p) | Some d \<Rightarrow> d)"
  shows "\<not> occurs_at t p (s + e)"
proof
  assume "occurs_at t p (s + e)"
  with ne have all: "\<forall>q<length p. t ! (s + e + q) = p ! q" by (simp add: occurs_at_nth)
  from ne have m: "0 < length p" by simp
  show False
  proof (cases "horspool_skip p c")
    case None
    with e have em: "e < length p" by simp
    with all e(1) m have "p ! (length p - 1 - e) = t ! (s + length p - 1)"
      by (auto dest!: spec [of _ "length p - 1 - e"])
    moreover from em e(1) have "length p - 1 - e < length p - 1" by linarith
    ultimately show False using horspool_skip_last(1) [OF ne None] c by auto
  next
    case (Some v)
    from horspool_skip_last(2) [OF ne Some] obtain i where i: "i < length p - 1"
      "v = int (length p) - int i - 1" "p ! i = c"
      "\<forall>i'. i < i' \<and> i' < length p - 1 \<longrightarrow> p ! i' \<noteq> c" by blast
    from e Some i have ek: "i + e < length p - 1" by simp
    with all e(1) have "p ! (length p - 1 - e) = t ! (s + length p - 1)"
      by (auto dest!: spec [of _ "length p - 1 - e"])
    moreover from ek e(1) have "i < length p - 1 - e" "length p - 1 - e < length p - 1" by linarith+
    ultimately show False using i(4) c by auto
  qed
qed

lemma horspool_skip_positive:
  assumes ne: "p \<noteq> []"
  shows "0 < (case horspool_skip p c of None \<Rightarrow> int (length p) | Some d \<Rightarrow> d)"
proof (cases "horspool_skip p c")
  case None
  with ne show ?thesis by simp
next
  case (Some v)
  from horspool_skip_last(2) [OF ne Some] show ?thesis using Some by auto
qed

lemma horspool_step_ok:
  assumes fit: "s + length p \<le> length t" and ne: "p \<noteq> []"
    and ms: "ms = map int (filter (occurs_at t p) [0..<s])"
  shows "\<exists>ms' s'. horspool_step t p (horspool_skip p) (ms, int s) = Returns (ms', int s') \<and> s < s' \<and>
           ms' = map int (filter (occurs_at t p) [0..<s'])"
proof -
  from horspool_compare_result [OF fit ne] obtain j where cmp: "horspool_compare t p (int s) = Returns j"
    and j: "- 1 \<le> j" "j < int (length p)"
    and above: "\<forall>k. j < int k \<and> k < length p \<longrightarrow> p ! k = t ! (s + k)"
    and at: "0 \<le> j \<longrightarrow> p ! nat j \<noteq> t ! (s + nat j)" by blast
  have occ: "occurs_at t p s \<longleftrightarrow> j < 0"
    using fit ne above at j(2) by (rule compare_loop_occurs)
  show ?thesis
  proof (cases "j < 0")
    case True
    with cmp have "horspool_step t p (horspool_skip p) (ms, int s) = Returns (ms @ [int s], int (Suc s))"
      by (simp add: horspool_step_def add.commute)
    moreover from True occ ms have "ms @ [int s] = map int (filter (occurs_at t p) [0..<Suc s])"
      by simp
    ultimately show ?thesis by (intro exI [of _ "ms @ [int s]"] exI [of _ "Suc s"]) simp
  next
    case False
    from ne have m: "0 < length p" by simp
    define c where "c = t ! (s + length p - 1)"
    define d where "d = nat (case horspool_skip p c of None \<Rightarrow> int (length p) | Some d \<Rightarrow> d)"
    have d: "0 < d" "int d = (case horspool_skip p c of None \<Rightarrow> int (length p) | Some d \<Rightarrow> d)"
      using horspool_skip_positive [OF ne, of c] by (simp_all add: d_def)
    from m fit have lt: "s + length p - 1 < length t" by linarith
    from m have "int (s + length p - 1) = int s + int (length p) - 1" by linarith
    with py_index_nat [OF lt] have idx: "py_index t (int s + int (length p) - 1) = Returns c"
      by (simp add: c_def)
    from False cmp idx d(2) have "horspool_step t p (horspool_skip p) (ms, int s) = Returns (ms, int (s + d))"
      by (simp add: horspool_step_def)
    moreover have "filter (occurs_at t p) [0..<s + d] = filter (occurs_at t p) [0..<s]"
    proof (rule filter_upt_skip)
      fix q assume q: "s \<le> q" "q < s + d"
      show "\<not> occurs_at t p q"
      proof (cases "q = s")
        case True
        with occ False show ?thesis by simp
      next
        case False
        define e where "e = q - s"
        from False q have e: "0 < e" "int e < int d" "q = s + e" by (simp_all add: e_def)
        from horspool_shift_safe [OF ne fit c_def e(1)] e(2) d(2) show ?thesis
          unfolding e(3) by simp
      qed
    qed simp
    ultimately show ?thesis using ms d(1)
      by (intro exI [of _ ms] exI [of _ "s + d"]) simp
  qed
qed

lemma boyer_moore_horspool_search_occurrences:
  assumes "p \<noteq> []"
  shows "boyer_moore_horspool_search t p = Returns (occurrences t p)"
  using assms shift_scan_loop [OF assms, of t "horspool_step t p (horspool_skip p)"]
    horspool_step_ok [OF _ assms]
  by (simp add: boyer_moore_horspool_search_def)
section \<open>The rolling-hash scan finds every occurrence\<close>

lemma rolling_hash_Nil: "rolling_hash ord [] b q = 0"
  by (simp add: rolling_hash_def)

lemma rolling_hash_snoc:
  "rolling_hash ord (xs @ [c]) b q = (rolling_hash ord xs b q * b + ord c) mod q"
  by (simp add: rolling_hash_def)

lemma rolling_hash_Cons:
  "rolling_hash ord (a # xs) b q = (ord a * b ^ length xs + rolling_hash ord xs b q) mod q"
proof (induction xs rule: rev_induct)
  case Nil
  show ?case by (simp add: rolling_hash_def)
next
  case (snoc c xs)
  have "rolling_hash ord (a # xs @ [c]) b q = (rolling_hash ord (a # xs) b q * b + ord c) mod q"
    using rolling_hash_snoc [of ord "a # xs" c b q] by simp
  also have "\<dots> = ((ord a * b ^ length xs + rolling_hash ord xs b q) mod q * b + ord c) mod q"
    by (simp add: snoc.IH)
  also have "\<dots> = ((ord a * b ^ length xs + rolling_hash ord xs b q) * b + ord c) mod q"
    by (intro mod_add_cong mod_mult_cong) simp_all
  also have "\<dots> = (ord a * b ^ length (xs @ [c]) + (rolling_hash ord xs b q * b + ord c)) mod q"
    by (simp add: algebra_simps)
  also have "\<dots> = (ord a * b ^ length (xs @ [c]) + rolling_hash ord (xs @ [c]) b q) mod q"
    unfolding rolling_hash_snoc by (intro mod_add_cong) simp_all
  finally show ?case by simp
qed

lemma rolling_hash_slide:
  "((((rolling_hash ord (a # xs) b q - ord a * (b ^ length xs mod q)) mod q) * b + ord c) mod q + q) mod q
     = rolling_hash ord (xs @ [c]) b q"
proof -
  have "(rolling_hash ord (a # xs) b q - ord a * (b ^ length xs mod q)) mod q
          = (ord a * b ^ length xs + rolling_hash ord xs b q - ord a * b ^ length xs) mod q"
    unfolding rolling_hash_Cons by (intro mod_diff_cong mod_mult_cong) simp_all
  also have "\<dots> = rolling_hash ord xs b q mod q" by simp
  finally have "((rolling_hash ord (a # xs) b q - ord a * (b ^ length xs mod q)) mod q * b + ord c) mod q
          = (rolling_hash ord xs b q * b + ord c) mod q"
    by (intro mod_add_cong mod_mult_cong) simp_all
  then show ?thesis by (simp add: rolling_hash_snoc)
qed

lemma py_slice_window:
  "i + m \<le> length t \<Longrightarrow> py_slice t (int i) (int i + int m) = take m (drop i t)"
  by (simp add: py_slice_def Let_def min_def nat_add_distrib)

lemma window_Cons:
  assumes "i + m < length t" "0 < m"
  shows "take m (drop i t) = t ! i # take (m - 1) (drop (Suc i) t)"
    and "take m (drop (Suc i) t) = take (m - 1) (drop (Suc i) t) @ [t ! (i + m)]"
proof -
  from assms have "drop i t = t ! i # drop (Suc i) t" by (simp add: Cons_nth_drop_Suc)
  with assms(2) show "take m (drop i t) = t ! i # take (m - 1) (drop (Suc i) t)"
    by (cases m) simp_all
  from assms have "take (Suc (m - 1)) (drop (Suc i) t) =
      take (m - 1) (drop (Suc i) t) @ [drop (Suc i) t ! (m - 1)]"
    by (intro take_Suc_conv_app_nth) simp
  with assms show "take m (drop (Suc i) t) = take (m - 1) (drop (Suc i) t) @ [t ! (i + m)]"
    by simp
qed

lemma for_each_upt:
  assumes "a \<le> b" and "I a s"
    and "\<And>i s. a \<le> i \<Longrightarrow> i < b \<Longrightarrow> I i s \<Longrightarrow> \<exists>s'. f (int i) s = Returns s' \<and> I (Suc i) s'"
  shows "\<exists>s'. for_each f (map int [a..<b]) s = Returns s' \<and> I b s'"
  using assms
proof (induction "b - a" arbitrary: a s)
  case 0
  then show ?case by simp
next
  case (Suc n)
  then have ab: "a < b" by simp
  from Suc.prems(3) [OF _ ab Suc.prems(2)] obtain s1 where s1: "f (int a) s = Returns s1" "I (Suc a) s1"
    by auto
  have "\<exists>s'. for_each f (map int [Suc a..<b]) s1 = Returns s' \<and> I b s'"
  proof (rule Suc.hyps(1))
    show "n = b - Suc a" using Suc.hyps(2) by simp
    show "Suc a \<le> b" using ab by simp
    show "I (Suc a) s1" by fact
    fix i s assume "Suc a \<le> i" "i < b" "I i s"
    then show "\<exists>s'. f (int i) s = Returns s' \<and> I (Suc i) s'"
      using Suc.prems(3) [of i s] by simp
  qed
  with s1 ab show ?case by (simp add: upt_conv_Cons)
qed
lemma rk_step_ok:
  assumes ne: "p \<noteq> []" and fit: "i + length p \<le> length t"
    and th: "th = rolling_hash ord (take (length p) (drop i t)) b q"
    and ms: "ms = map int (filter (occurs_at t p) [0..<i])"
    and h: "h = b ^ (length p - 1) mod q"
  shows "\<exists>th'. rk_step ord t p b q (rolling_hash ord p b q) h (int i) (th, ms) =
            Returns (th', map int (filter (occurs_at t p) [0..<Suc i])) \<and>
          (Suc i + length p \<le> length t \<longrightarrow> th' = rolling_hash ord (take (length p) (drop (Suc i) t)) b q)"
proof -
  from ne have m: "0 < length p" by simp
  have sl: "py_slice t (int i) (int i + int (length p)) = take (length p) (drop i t)"
    using fit by (rule py_slice_window)
  have occ: "occurs_at t p i \<longleftrightarrow> take (length p) (drop i t) = p" by (simp add: occurs_at_def)
  define ms' where "ms' =
     (if rolling_hash ord p b q = th then
        (if py_slice t (int i) (int i + int (length p)) = p then ms @ [int i] else ms)
      else ms)"
  have ms': "ms' = map int (filter (occurs_at t p) [0..<Suc i])"
    using ms th by (auto simp: ms'_def sl occ)
  show ?thesis
  proof (cases "Suc i + length p \<le> length t")
    case False
    with fit have "\<not> int i < int (length t) - int (length p)" by linarith
    then have "rk_step ord t p b q (rolling_hash ord p b q) h (int i) (th, ms) = Returns (th, ms')"
      by (simp add: rk_step_def ms'_def Let_def)
    with ms' False show ?thesis by simp
  next
    case True
    then have lt: "i + length p < length t" by simp
    then have c: "int i < int (length t) - int (length p)" by linarith
    define xs where "xs = take (length p - 1) (drop (Suc i) t)"
    from window_Cons [OF lt m] have w: "take (length p) (drop i t) = t ! i # xs"
      and w': "take (length p) (drop (Suc i) t) = xs @ [t ! (i + length p)]"
      by (simp_all add: xs_def)
    from lt m have len: "length xs = length p - 1" by (simp add: xs_def)
    have i1: "py_index t (int i) = Returns (t ! i)" using lt by (intro py_index_nat) simp
    have i2: "py_index t (int i + int (length p)) = Returns (t ! (i + length p))"
      using py_index_nat [of "i + length p" t] lt by simp
    have "rk_step ord t p b q (rolling_hash ord p b q) h (int i) (th, ms) =
        Returns ((((th - ord (t ! i) * h) mod q * b + ord (t ! (i + length p))) mod q + q) mod q, ms')"
      using c by (simp add: rk_step_def ms'_def Let_def i1 i2)
    moreover have "(((th - ord (t ! i) * h) mod q * b + ord (t ! (i + length p))) mod q + q) mod q
        = rolling_hash ord (take (length p) (drop (Suc i) t)) b q"
      unfolding th w w' h len [symmetric] by (rule rolling_hash_slide)
    ultimately show ?thesis using ms' by simp
  qed
qed

lemma rabin_karp_search_occurrences:
  assumes ne: "p \<noteq> []"
  shows "rabin_karp_search ord t p = Returns (occurrences t p)"
proof (cases "length p \<le> length t")
  case False
  have "filter (occurs_at t p) [0..<length t] = []"
    using False by (auto simp: filter_empty_conv dest!: occurs_at_bound(1) [OF ne])
  with False ne show ?thesis by (simp add: rabin_karp_search_def occurrences_def Let_def)
next
  case True
  let ?m = "length p" and ?n = "length t"
  let ?H = "\<lambda>xs. rolling_hash ord xs 256 101"
  let ?h = "256 ^ nat (int ?m - 1) mod (101::int)"
  let ?I = "\<lambda>i (th, ms). (i + ?m \<le> ?n \<longrightarrow> th = ?H (take ?m (drop i t))) \<and>
              ms = map int (filter (occurs_at t p) [0..<i])"
  from ne have m: "0 < ?m" by simp
  have hh: "?h = 256 ^ (?m - 1) mod 101" using m by (simp add: nat_diff_distrib')
  have rng: "nat (int ?n - int ?m + 1) = Suc (?n - ?m)" using True by linarith
  have "\<exists>s'. for_each (rk_step ord t p 256 101 (?H p) ?h) (map int [0..<Suc (?n - ?m)]) (?H (take ?m t), [])
           = Returns s' \<and> ?I (Suc (?n - ?m)) s'"
  proof (rule for_each_upt [where I = ?I])
    show "?I 0 (?H (take ?m t), [])" by simp
  next
    fix i and s :: "int \<times> int list"
    assume i: "i < Suc (?n - ?m)" and I: "?I i s"
    obtain th ms where s: "s = (th, ms)" by (cases s)
    from i True have fit: "i + ?m \<le> ?n" by linarith
    with I s have th: "th = ?H (take ?m (drop i t))" and ms: "ms = map int (filter (occurs_at t p) [0..<i])"
      by simp_all
    from rk_step_ok [OF ne fit th ms hh] s
    show "\<exists>s'. rk_step ord t p 256 101 (?H p) ?h (int i) s = Returns s' \<and> ?I (Suc i) s'"
      by auto
  qed simp
  then obtain th ms where r: "for_each (rk_step ord t p 256 101 (?H p) ?h) (map int [0..<Suc (?n - ?m)])
       (?H (take ?m t), []) = Returns (th, ms)"
    and ms: "ms = map int (filter (occurs_at t p) [0..<Suc (?n - ?m)])" by auto
  have eq: "filter (occurs_at t p) [0..<Suc (?n - ?m)] = filter (occurs_at t p) [0..<?n]"
  proof (rule filter_upt_bound)
    fix q assume "occurs_at t p q"
    from occurs_at_bound [OF ne this] show "q < Suc (?n - ?m)" "q < ?n" by linarith+
  qed
  have "ms = occurrences t p" unfolding ms occurrences_def eq ..
  moreover have "py_slice t 0 (int ?m) = take ?m t"
    using py_slice_window [of 0 ?m t] True by simp
  ultimately show ?thesis using True ne r
    by (simp add: rabin_karp_search_def Let_def rng)
qed
text \<open>
  C6. A step of \<open>rabin_karp_search\<close> records the position \<open>i\<close> only when the hash of the
  window equals the hash of the pattern and the window itself equals the pattern.
  So for every text, every non-empty pattern and every code-point function, colliding
  or not, the scan returns exactly the occurrences of the pattern.
\<close>

theorem rabin_karp_no_false_match:
  "(rk_step ord text pattern base modulus pattern_hash h i (text_hash, matches) = Returns (text_hash', matches') \<longrightarrow>
      matches' = matches \<or>
      (matches' = matches @ [i] \<and> pattern_hash = text_hash \<and>
       py_slice text i (i + int (length pattern)) = pattern)) \<and>
   (pattern \<noteq> [] \<longrightarrow> rabin_karp_search ord text pattern = Returns (occurrences text pattern))"
  by (auto simp: rabin_karp_search_occurrences rk_step_def Let_def and_then_Returns_iff
        split: if_splits)

theorem rabin_karp_no_false_match_witness:
  "rk_step (\<lambda>c. 0) ''abab'' ''ab'' 256 101 0 1 1 (0, [0]) = Returns (0, [0]) \<and>
   ''ab'' \<noteq> [] \<and> rabin_karp_search (\<lambda>c. 0) ''abab'' ''ab'' = Returns [0, 2]"
proof -
  have s: "rk_step (\<lambda>c. 0) ''abab'' ''ab'' 256 101 0 1 1 (0, [0]) = Returns (0, [0])"
    by code_simp
  have o: "occurrences ''abab'' ''ab'' = [0, 2]" by code_simp
  from rabin_karp_no_false_match [of "\<lambda>c. 0" "''abab''" "''ab''" 256 101 0 1 1 0 "[0]" 0 "[0]"]
  show ?thesis using s by (simp add: o)
qed

section \<open>The trie\<close>

lemma trie_words_Nil [simp]: "trie_words [] t = []"
  by (simp add: trie_words_def)

lemma trie_words_snoc:
  "trie_words (g @ [((s, c), t)]) = (trie_words g)(t := trie_words g s @ [c])"
  by (simp add: trie_words_def)

lemma trie_entry:
  assumes "trie g" "((s, c), t) \<in> set g"
  shows "0 \<le> s \<and> s < t \<and> t \<le> int (length g)"
  using assms by (induction rule: trie.induct) auto

lemma trie_distinct_keys: "trie g \<Longrightarrow> distinct (map fst g)"
proof (induction rule: trie.induct)
  case (grow g s c)
  from grow.hyps(4) have "(s, c) \<notin> fst ` set g" by (simp add: map_of_eq_None_iff)
  with grow.IH show ?case by simp
qed simp

lemma trie_map_of: "trie g \<Longrightarrow> map_of g k = Some t \<longleftrightarrow> (k, t) \<in> set g"
  by (simp add: trie_distinct_keys)

lemma trie_target:
  assumes "trie g" "1 \<le> t" "t \<le> int (length g)"
  shows "\<exists>s c. ((s, c), t) \<in> set g"
  using assms
proof (induction rule: trie.induct)
  case (grow g s c)
  show ?case
  proof (cases "t = int (length g) + 1")
    case True
    then show ?thesis by auto
  next
    case False
    with grow.prems have "t \<le> int (length g)" by simp
    with grow.IH grow.prems(1) show ?thesis by auto
  qed
qed simp

lemma trie_words_outside:
  assumes "trie g" "t \<le> 0 \<or> int (length g) < t"
  shows "trie_words g t = []"
  using assms
proof (induction rule: trie.induct)
  case (grow g s c)
  then show ?case by (auto simp: trie_words_snoc)
qed simp

lemma trie_words_root [simp]: "trie g \<Longrightarrow> trie_words g 0 = []"
  by (simp add: trie_words_outside)

lemma trie_words_grow_old:
  assumes "t \<le> int (length g)"
  shows "trie_words (g @ [((s, c), int (length g) + 1)]) t = trie_words g t"
  using assms by (simp add: trie_words_snoc)

lemma trie_words_entry:
  assumes "trie g" "((s, c), t) \<in> set g"
  shows "trie_words g t = trie_words g s @ [c]"
  using assms
proof (induction rule: trie.induct)
  case (grow g s' c')
  show ?case
  proof (cases "((s, c), t) \<in> set g")
    case True
    from trie_entry [OF grow.hyps(1) True] have "s \<le> int (length g)" "t \<le> int (length g)" by simp_all
    with grow.IH [OF True] show ?thesis by (simp add: trie_words_snoc)
  next
    case False
    with grow.prems have "s = s'" "c = c'" "t = int (length g) + 1" by auto
    with grow.hyps(3) show ?thesis by (simp add: trie_words_snoc)
  qed
qed simp

lemma trie_words_nonempty:
  assumes "trie g" "1 \<le> t" "t \<le> int (length g)"
  shows "trie_words g t \<noteq> []"
proof -
  from trie_target [OF assms] obtain s c where "((s, c), t) \<in> set g" by blast
  from trie_words_entry [OF assms(1) this] show ?thesis by simp
qed

lemma trie_words_empty_iff:
  assumes "trie g" "t \<in> nodes g"
  shows "trie_words g t = [] \<longleftrightarrow> t = 0"
proof
  assume e: "trie_words g t = []"
  show "t = 0"
  proof (rule ccontr)
    assume "t \<noteq> 0"
    with assms(2) have "1 \<le> t" "t \<le> int (length g)" by (simp_all add: nodes_def)
    from trie_words_nonempty [OF assms(1) this] e show False by simp
  qed
qed (simp add: assms(1))

lemma trie_words_inj:
  assumes "trie g"
  shows "inj_on (trie_words g) (nodes g)"
  using assms
proof (induction rule: trie.induct)
  case empty
  show ?case by (simp add: nodes_def)
next
  case (grow g s c)
  let ?g = "g @ [((s, c), int (length g) + 1)]"
  let ?n = "int (length g) + 1"
  have old: "trie_words ?g t = trie_words g t" if "t \<in> nodes g" for t
    using that by (simp add: trie_words_snoc nodes_def)
  have new: "trie_words ?g ?n = trie_words g s @ [c]" by (simp add: trie_words_snoc)
  have fresh: "trie_words g t \<noteq> trie_words g s @ [c]" if t: "t \<in> nodes g" for t
  proof
    assume eq: "trie_words g t = trie_words g s @ [c]"
    with trie_words_empty_iff [OF grow.hyps(1) t] have "t \<noteq> 0" by auto
    with t have "1 \<le> t" "t \<le> int (length g)" by (simp_all add: nodes_def)
    from trie_target [OF grow.hyps(1) this] obtain s' c' where e: "((s', c'), t) \<in> set g" by blast
    from trie_words_entry [OF grow.hyps(1) e] eq have w: "trie_words g s' = trie_words g s" and c: "c' = c"
      by simp_all
    from trie_entry [OF grow.hyps(1) e] have "s' \<in> nodes g" by (simp add: nodes_def)
    moreover from grow.hyps(2,3) have "s \<in> nodes g" by (simp add: nodes_def)
    ultimately have "s' = s" using grow.IH w by (auto dest: inj_onD)
    with e c have "((s, c), t) \<in> set g" by simp
    with grow.hyps(1,4) show False by (simp add: trie_map_of [symmetric])
  qed
  have n: "nodes ?g = insert ?n (nodes g)" by (auto simp: nodes_def)
  show ?case
    unfolding n
  proof (rule inj_onI)
    fix x y assume x: "x \<in> insert ?n (nodes g)" and y: "y \<in> insert ?n (nodes g)"
      and eq: "trie_words ?g x = trie_words ?g y"
    show "x = y"
    proof (cases "x = ?n")
      case True
      show ?thesis
      proof (cases "y = ?n")
        case False
        with y have "y \<in> nodes g" by simp
        with eq True new old fresh show ?thesis by metis
      qed (simp add: True)
    next
      case xo: False
      with x have xn: "x \<in> nodes g" by simp
      show ?thesis
      proof (cases "y = ?n")
        case True
        with eq new old [OF xn] fresh [OF xn] show ?thesis by metis
      next
        case False
        with y have "y \<in> nodes g" by simp
        with eq old xn grow.IH show ?thesis by (auto dest: inj_onD)
      qed
    qed
  qed
qed

lemma trie_lookup_word:
  assumes "trie g" "s \<in> nodes g" "t \<in> nodes g" "trie_words g t = trie_words g s @ [c]"
  shows "map_of g (s, c) = Some t"
proof -
  from assms(4) trie_words_empty_iff [OF assms(1,3)] have "t \<noteq> 0" by auto
  with assms(3) have "1 \<le> t" "t \<le> int (length g)" by (simp_all add: nodes_def)
  from trie_target [OF assms(1) this] obtain s' c' where e: "((s', c'), t) \<in> set g" by blast
  from trie_words_entry [OF assms(1) e] assms(4) have w: "trie_words g s' = trie_words g s" and c: "c' = c"
    by simp_all
  from trie_entry [OF assms(1) e] have "s' \<in> nodes g" by (simp add: nodes_def)
  with assms(2) w trie_words_inj [OF assms(1)] have "s' = s" by (auto dest: inj_onD)
  with e c show ?thesis by (simp add: trie_map_of [OF assms(1)])
qed

lemma trie_step_word:
  assumes "trie g" "map_of g (s, c) = Some t"
  shows "s \<in> nodes g" "t \<in> nodes g" "trie_words g t = trie_words g s @ [c]" "t \<noteq> 0"
proof -
  from assms have e: "((s, c), t) \<in> set g" by (simp add: trie_map_of)
  from trie_entry [OF assms(1) e] show "s \<in> nodes g" "t \<in> nodes g" "t \<noteq> 0"
    by (simp_all add: nodes_def)
  from trie_words_entry [OF assms(1) e] show "trie_words g t = trie_words g s @ [c]" .
qed
subsection \<open>Inserting the patterns\<close>

lemma trie_prefix: "trie (g @ ext) \<Longrightarrow> trie g"
proof (induction ext rule: rev_induct)
  case (snoc e ext)
  from snoc.prems have "trie ((g @ ext) @ [e])" by simp
  then have "trie (g @ ext)" by (cases rule: trie.cases) auto
  then show ?case by (rule snoc.IH)
qed simp

lemma trie_words_extend:
  assumes "trie (g @ ext)" "t \<le> int (length g)"
  shows "trie_words (g @ ext) t = trie_words g t"
  using assms
proof (induction ext rule: rev_induct)
  case (snoc e ext)
  from snoc.prems have t: "trie ((g @ ext) @ [e])" by simp
  then obtain s c where e: "e = ((s, c), int (length (g @ ext)) + 1)" and t': "trie (g @ ext)"
    by (cases rule: trie.cases) auto
  have "trie_words ((g @ ext) @ [e]) t = trie_words (g @ ext) t"
    unfolding e using snoc.prems(2) by (intro trie_words_grow_old) simp
  with snoc.IH [OF t' snoc.prems(2)] show ?case by simp
qed simp

lemma trie_words_extend_nodes:
  "trie (g @ ext) \<Longrightarrow> t \<in> nodes g \<Longrightarrow> trie_words (g @ ext) t = trie_words g t"
  by (simp add: trie_words_extend nodes_def)

lemma nodes_extend: "nodes g \<subseteq> nodes (g @ ext)"
  by (auto simp: nodes_def)

lemma trie_new_word:
  assumes t: "trie (g @ ext)" and y: "y \<in> nodes g" and x: "x \<in> nodes (g @ ext)" "x \<notin> nodes g"
  shows "trie_words (g @ ext) x \<noteq> trie_words g y"
proof
  assume "trie_words (g @ ext) x = trie_words g y"
  with trie_words_extend_nodes [OF t y] have "trie_words (g @ ext) x = trie_words (g @ ext) y" by simp
  moreover from y nodes_extend have "y \<in> nodes (g @ ext)" by blast
  ultimately have "x = y" using trie_words_inj [OF t] x(1) by (auto dest: inj_onD)
  with x(2) y show False by simp
qed

lemma trie_char_ok:
  assumes "trie g" "cur \<in> nodes g" "trie_char c (g, cur) = (g', t)"
  shows "trie g' \<and> (\<exists>ext. g' = g @ ext) \<and> t \<in> nodes g' \<and> trie_words g' t = trie_words g cur @ [c]"
proof (cases "map_of g (cur, c)")
  case None
  with assms(3) have g': "g' = g @ [((cur, c), int (length g) + 1)]" and t: "t = int (length g) + 1"
    by (auto simp: trie_char_def Let_def)
  from assms(1,2) None have "trie g'" unfolding g' by (intro trie.grow) (simp_all add: nodes_def)
  moreover from assms(2) have "trie_words g' t = trie_words g cur @ [c]"
    by (simp add: g' t trie_words_snoc nodes_def)
  ultimately show ?thesis using g' t by (auto simp: nodes_def)
next
  case (Some t')
  with assms(3) have "g' = g" "t = t'" by (simp_all add: trie_char_def)
  with trie_step_word [OF assms(1) Some] assms(1) show ?thesis by auto
qed

lemma trie_insert_ok:
  assumes "trie g" "cur \<in> nodes g" "fold trie_char p (g, cur) = (g', t)"
  shows "trie g' \<and> (\<exists>ext. g' = g @ ext) \<and> t \<in> nodes g' \<and> trie_words g' t = trie_words g cur @ p"
  using assms
proof (induction p arbitrary: g cur)
  case Nil
  then show ?case by simp
next
  case (Cons c p)
  obtain g1 t1 where s1: "trie_char c (g, cur) = (g1, t1)" by (cases "trie_char c (g, cur)")
  from trie_char_ok [OF Cons.prems(1,2) s1] obtain ext1 where g1: "trie g1" "g1 = g @ ext1"
    "t1 \<in> nodes g1" "trie_words g1 t1 = trie_words g cur @ [c]" by blast
  from Cons.prems(3) s1 have "fold trie_char p (g1, t1) = (g', t)" by simp
  from Cons.IH [OF g1(1,3) this] obtain ext2 where g2: "trie g'" "g' = g1 @ ext2"
    "t \<in> nodes g'" "trie_words g' t = trie_words g1 t1 @ p" by blast
  from g1 g2 show ?case by auto
qed

lemma list_entry_simps [simp]:
  "list_entry [] = None" "xs \<noteq> [] \<Longrightarrow> list_entry xs = Some xs"
  "(case list_entry xs of None \<Rightarrow> [] | Some l \<Rightarrow> l) = xs"
  by (simp_all add: list_entry_def)

lemma phase1_step:
  assumes inv: "phase1 ps ac"
  shows "phase1 (ps @ [p]) (trie_pattern p ac)"
proof -
  let ?g = "goto ac"
  from inv have tg: "trie ?g" and f: "fail ac = Map.empty"
    and pw: "\<forall>q \<in> set ps. \<exists>t \<in> nodes ?g. trie_words ?g t = q"
    and out: "\<forall>t. output ac t = list_entry (own_patterns ?g ps t)"
    by (simp_all add: phase1_def)
  obtain g' t where ins: "fold trie_char p (?g, 0) = (g', t)" by (cases "fold trie_char p (?g, 0)")
  have "0 \<in> nodes ?g" by (simp add: nodes_def)
  from trie_insert_ok [OF tg this ins] tg obtain ext where tg': "trie g'" and g': "g' = ?g @ ext"
    and t: "t \<in> nodes g'" and wt: "trie_words g' t = p" by auto
  from tg' g' have tge: "trie (?g @ ext)" by simp
  have ac': "trie_pattern p ac = ac\<lparr>goto := g', output := (output ac)(t \<mapsto> own_patterns ?g ps t @ [p])\<rparr>"
    using ins by (simp add: trie_pattern_def out)
  have old: "trie_words g' x = trie_words ?g x" if "x \<in> nodes ?g" for x
    unfolding g' using tge that by (rule trie_words_extend_nodes)
  have sub: "nodes ?g \<subseteq> nodes g'" unfolding g' by (rule nodes_extend)
  have nomatch: "filter (\<lambda>q. q = trie_words g' x) ps = []" if x: "x \<in> nodes g'" "x \<notin> nodes ?g" for x
  proof -
    have "q \<noteq> trie_words g' x" if "q \<in> set ps" for q
    proof -
      from pw that obtain y where y: "y \<in> nodes ?g" "trie_words ?g y = q" by blast
      from x have "x \<in> nodes (?g @ ext)" by (simp add: g')
      from trie_new_word [OF tge y(1) this x(2)] have "trie_words g' x \<noteq> trie_words ?g y"
        by (simp add: g')
      with y(2) show ?thesis by auto
    qed
    then show ?thesis by (auto simp: filter_empty_conv)
  qed
  have own_old: "own_patterns g' ps x = own_patterns ?g ps x" if "x \<in> nodes g'" for x
    using that nomatch [of x] old [of x] sub by (auto simp: own_patterns_def)
  have inj: "inj_on (trie_words g') (nodes g')" using tg' by (rule trie_words_inj)
  have "output (trie_pattern p ac) x = list_entry (own_patterns g' (ps @ [p]) x)" for x
  proof (cases "x = t")
    case True
    with t wt own_old [OF t] show ?thesis by (simp add: ac' own_patterns_def)
  next
    case False
    show ?thesis
    proof (cases "x \<in> nodes g'")
      case True
      with False t wt inj have "trie_words g' x \<noteq> p" by (auto dest: inj_onD)
      with True False own_old [OF True] out show ?thesis by (simp add: ac' own_patterns_def)
    next
      case no: False
      with sub have "x \<notin> nodes ?g" by blast
      with no False out show ?thesis by (simp add: ac' own_patterns_def)
    qed
  qed
  moreover have "\<exists>x \<in> nodes g'. trie_words g' x = q" if "q \<in> set (ps @ [p])" for q
  proof (cases "q = p")
    case True
    with t wt show ?thesis by blast
  next
    case False
    with that pw obtain y where "y \<in> nodes ?g" "trie_words ?g y = q" by auto
    with old [of y] sub show ?thesis by blast
  qed
  ultimately show ?thesis using tg' f by (simp add: phase1_def ac')
qed

lemma phase1_fold:
  "phase1 qs ac \<Longrightarrow> phase1 (qs @ ps) (fold trie_pattern ps ac)"
proof (induction ps arbitrary: qs ac)
  case (Cons p ps)
  from Cons.IH [OF phase1_step [OF Cons.prems, of p]] show ?case by simp
qed simp

lemma phase1_new: "phase1 [] new_automaton"
  by (simp add: phase1_def new_automaton_def trie.empty own_patterns_def)

lemma phase1_patterns: "phase1 ps (fold trie_pattern ps new_automaton)"
  using phase1_fold [OF phase1_new, of ps] by simp
subsection \<open>Following failure links\<close>

lemma suffix_shorter:
  assumes "suffix a x" "suffix b x" "length a \<le> length b"
  shows "suffix a b"
  using assms by (metis suffix_length_suffix)

lemma suffix_same_length: "suffix a b \<Longrightarrow> length a = length b \<Longrightarrow> a = b"
  by (metis suffix_order.eq_iff suffix_length_suffix order_refl)

lemma suffix_snoc_cases:
  assumes "suffix v (x @ [c])" "v \<noteq> []"
  shows "\<exists>y. v = y @ [c] \<and> suffix y x"
  using assms by (cases v rule: rev_cases) (auto simp: suffix_def)

lemma lsuf_upto_step:
  assumes tg: "trie g"
    and e: "e \<in> nodes g" "suffix (trie_words g e) x" "length (trie_words g e) \<le> L"
    and cand: "\<forall>v \<in> nodes g. suffix (trie_words g v) x \<and> length (trie_words g v) \<le> L \<and>
                 map_of g (v, c) \<noteq> None \<longrightarrow> length (trie_words g v) \<le> length (trie_words g e)"
    and ex: "map_of g (e, c) = None \<longrightarrow> e = 0"
  shows "lsuf_upto g (x @ [c]) (Suc L) (case map_of g (e, c) of Some t \<Rightarrow> t | None \<Rightarrow> 0)"
proof -
  let ?w = "trie_words g"
  have src: "\<exists>vy \<in> nodes g. map_of g (vy, c) = Some v' \<and> suffix (?w vy) x \<and>
                length (?w v') = Suc (length (?w vy)) \<and> length (?w vy) \<le> L"
    if v': "v' \<in> nodes g" "suffix (?w v') (x @ [c])" "length (?w v') \<le> Suc L" "?w v' \<noteq> []" for v'
  proof -
    from suffix_snoc_cases [OF v'(2,4)] obtain y where y: "?w v' = y @ [c]" "suffix y x" by blast
    from v'(1,4) tg have "1 \<le> v'" "v' \<le> int (length g)"
      using trie_words_empty_iff [OF tg v'(1)] by (auto simp: nodes_def)
    from trie_target [OF tg this] obtain vy c' where en: "((vy, c'), v') \<in> set g" by blast
    from trie_words_entry [OF tg en] y have wy: "?w vy = y" and c': "c' = c" by simp_all
    from en c' tg have m: "map_of g (vy, c) = Some v'" by (simp add: trie_map_of)
    from trie_step_word(1) [OF tg m] have "vy \<in> nodes g" .
    with m wy y v'(3) show ?thesis by auto
  qed
  show ?thesis
  proof (cases "map_of g (e, c)")
    case (Some t')
    from trie_step_word [OF tg Some] have t': "t' \<in> nodes g" "?w t' = ?w e @ [c]" by simp_all
    have "length (?w v') \<le> length (?w t')"
      if v': "v' \<in> nodes g" "suffix (?w v') (x @ [c])" "length (?w v') \<le> Suc L" for v'
    proof (cases "?w v' = []")
      case False
      from src [OF v' False] obtain vy where vy: "vy \<in> nodes g" "map_of g (vy, c) = Some v'"
        "suffix (?w vy) x" "length (?w v') = Suc (length (?w vy))" "length (?w vy) \<le> L" by blast
      with cand have "length (?w vy) \<le> length (?w e)" by auto
      with vy(4) t'(2) show ?thesis by simp
    qed simp
    with t' e Some show ?thesis by (auto simp: lsuf_upto_def)
  next
    case None
    with ex have e0: "e = 0" by simp
    have "?w v' = []"
      if v': "v' \<in> nodes g" "suffix (?w v') (x @ [c])" "length (?w v') \<le> Suc L" for v'
    proof (rule ccontr)
      assume ne: "?w v' \<noteq> []"
      from src [OF v' ne] obtain vy where vy: "vy \<in> nodes g" "map_of g (vy, c) = Some v'"
        "suffix (?w vy) x" "length (?w vy) \<le> L" by blast
      with cand have "length (?w vy) \<le> length (?w e)" by auto
      with e0 tg have "?w vy = []" by simp
      with trie_words_empty_iff [OF tg vy(1)] have "vy = 0" by simp
      with vy(2) None e0 show False by simp
    qed
    with None tg show ?thesis by (auto simp: lsuf_upto_def nodes_def)
  qed
qed

lemma follow_fail_ok:
  assumes tg: "trie g"
    and start: "lsuf_upto g x L s"
    and fl: "\<And>v. v \<in> nodes g \<Longrightarrow> v \<noteq> 0 \<Longrightarrow> length (trie_words g v) \<le> length (trie_words g s) \<Longrightarrow>
               \<exists>f'. f v = Some f' \<and> fail_ok g v f'"
  shows "\<exists>e. follow_fail g f c s = Returns e \<and> e \<in> nodes g \<and> (map_of g (e, c) = None \<longrightarrow> e = 0) \<and>
           lsuf_upto g (x @ [c]) (Suc L) (case map_of g (e, c) of Some t \<Rightarrow> t | None \<Rightarrow> 0)"
proof -
  let ?w = "trie_words g"
  let ?J = "\<lambda>e. e \<in> nodes g \<and> suffix (?w e) x \<and> length (?w e) \<le> length (?w s) \<and>
     (\<forall>v \<in> nodes g. suffix (?w v) x \<and> length (?w v) \<le> L \<and> map_of g (v, c) \<noteq> None \<longrightarrow>
        length (?w v) \<le> length (?w e))"
  let ?b = "\<lambda>state. Returns (state \<noteq> 0 \<and> map_of g (state, c) = None)"
  from start have s: "s \<in> nodes g" "suffix (?w s) x" "length (?w s) \<le> L"
    and smax: "\<forall>v \<in> nodes g. suffix (?w v) x \<and> length (?w v) \<le> L \<longrightarrow> length (?w v) \<le> length (?w s)"
    by (simp_all add: lsuf_upto_def)
  have "\<exists>e. py_while ?b (\<lambda>state. py_lookup f state) s = Returns e \<and> ?J e \<and> ?b e = Returns False"
  proof (rule py_while_total [where I = ?J and m = "\<lambda>e. length (?w e)"])
    from s smax show "?J s" by auto
  next
    fix e assume J: "?J e"
    show "?b e = Returns False \<or>
          (?b e = Returns True \<and> (\<exists>s'. py_lookup f e = Returns s' \<and> ?J s' \<and> length (?w s') < length (?w e)))"
    proof (cases "e \<noteq> 0 \<and> map_of g (e, c) = None")
      case False
      then show ?thesis by auto
    next
      case True
      from J have en: "e \<in> nodes g" and es: "suffix (?w e) x" and el: "length (?w e) \<le> length (?w s)"
        and ec: "\<forall>v \<in> nodes g. suffix (?w v) x \<and> length (?w v) \<le> L \<and> map_of g (v, c) \<noteq> None \<longrightarrow>
                   length (?w v) \<le> length (?w e)" by auto
      from fl [OF en _ el] True obtain e' where fe: "f e = Some e'" and ok: "fail_ok g e e'" by auto
      from ok have e': "e' \<in> nodes g" "suffix (?w e') (?w e)" "length (?w e') \<le> length (?w e) - 1"
        and mx: "\<forall>v \<in> nodes g. suffix (?w v) (?w e) \<and> length (?w v) \<le> length (?w e) - 1 \<longrightarrow>
                   length (?w v) \<le> length (?w e')"
        by (simp_all add: fail_ok_def lsuf_upto_def)
      from True trie_words_empty_iff [OF tg en] have wne: "?w e \<noteq> []" by simp
      with e'(3) have lt: "length (?w e') < length (?w e)" by (cases "?w e") auto
      have "length (?w v) \<le> length (?w e')"
        if v: "v \<in> nodes g" "suffix (?w v) x" "length (?w v) \<le> L" "map_of g (v, c) \<noteq> None" for v
      proof -
        from ec v have le: "length (?w v) \<le> length (?w e)" by auto
        from v(4) True have "v \<noteq> e" by auto
        with trie_words_inj [OF tg] v(1) en have "?w v \<noteq> ?w e" by (auto dest: inj_onD)
        moreover from suffix_shorter [OF v(2) es le] have sf: "suffix (?w v) (?w e)" .
        ultimately have "length (?w v) \<noteq> length (?w e)" using suffix_same_length by blast
        with le have "length (?w v) \<le> length (?w e) - 1" by simp
        with mx v(1) sf show ?thesis by auto
      qed
      moreover from e'(2) es have "suffix (?w e') x" by (rule suffix_order.trans)
      ultimately have "?J e'" using e'(1) lt el by auto
      with True fe lt show ?thesis by (auto simp: py_lookup_def)
    qed
  qed
  then obtain e where w: "follow_fail g f c s = Returns e" and J: "?J e"
    and stop: "\<not> (e \<noteq> 0 \<and> map_of g (e, c) = None)"
    by (auto simp: follow_fail_def)
  from J s have e: "e \<in> nodes g" "suffix (?w e) x" "length (?w e) \<le> L" by auto
  from lsuf_upto_step [OF tg e] J stop
  have "lsuf_upto g (x @ [c]) (Suc L) (case map_of g (e, c) of Some t \<Rightarrow> t | None \<Rightarrow> 0)" by blast
  with w e(1) stop show ?thesis by blast
qed
subsection \<open>Scanning a text\<close>

lemma for_each_upt_gen:
  assumes "a \<le> b" and "I a s"
    and "\<And>i s. a \<le> i \<Longrightarrow> i < b \<Longrightarrow> I i s \<Longrightarrow> \<exists>s'. f (h i) s = Returns s' \<and> I (Suc i) s'"
  shows "\<exists>s'. for_each f (map h [a..<b]) s = Returns s' \<and> I b s'"
  using assms
proof (induction "b - a" arbitrary: a s)
  case 0
  then show ?case by simp
next
  case (Suc n)
  then have ab: "a < b" by simp
  from Suc.prems(3) [OF _ ab Suc.prems(2)] obtain s1 where s1: "f (h a) s = Returns s1" "I (Suc a) s1"
    by auto
  have "\<exists>s'. for_each f (map h [Suc a..<b]) s1 = Returns s' \<and> I b s'"
  proof (rule Suc.hyps(1))
    show "n = b - Suc a" using Suc.hyps(2) by simp
    show "Suc a \<le> b" using ab by simp
    show "I (Suc a) s1" by fact
    fix i s assume "Suc a \<le> i" "i < b" "I i s"
    then show "\<exists>s'. f (h i) s = Returns s' \<and> I (Suc i) s'"
      using Suc.prems(3) [of i s] by simp
  qed
  with s1 ab show ?case by (simp add: upt_conv_Cons)
qed

lemma zip_index: "zip (map int [0..<length text]) text = map (\<lambda>i. (int i, text ! i)) [0..<length text]"
proof (rule nth_equalityI)
  show "length (zip (map int [0..<length text]) text) = length (map (\<lambda>i. (int i, text ! i)) [0..<length text])"
    by simp
next
  fix i assume "i < length (zip (map int [0..<length text]) text)"
  then show "zip (map int [0..<length text]) text ! i = map (\<lambda>i. (int i, text ! i)) [0..<length text] ! i"
    by simp
qed

lemma suffix_hits_suffix:
  assumes sf: "suffix y x"
    and no: "\<And>k q. k < length x - length y \<Longrightarrow> q \<in> set ps \<Longrightarrow> q \<noteq> drop k x"
  shows "suffix_hits ps x = suffix_hits ps y"
proof -
  define j where "j = length x - length y"
  from sf have y: "y = drop j x" and jl: "j \<le> length x" and ly: "length y = length x - j"
    by (auto simp: suffix_def j_def)
  have split: "[0..<length x] = [0..<j] @ [j..<length x]"
    using jl by (metis le_add_diff_inverse upt_add_eq_append zero_le)
  have "concat (map (\<lambda>k. filter (\<lambda>q. q = drop k x) ps) [0..<j]) = []"
    using no by (auto simp: j_def filter_empty_conv)
  moreover have "map (\<lambda>k. filter (\<lambda>q. q = drop k x) ps) [j..<length x] =
      map (\<lambda>k. filter (\<lambda>q. q = drop k y) ps) [0..<length y]"
    using jl by (auto simp: list_eq_iff_nth_eq y add.commute)
  ultimately show ?thesis unfolding suffix_hits_def split by simp
qed

lemma suffix_hits_longest:
  assumes tg: "trie g" and pw: "\<forall>p \<in> set ps. \<exists>t \<in> nodes g. trie_words g t = p"
    and ls: "lsuf_upto g x L s" and L: "length x \<le> L"
  shows "suffix_hits ps x = suffix_hits ps (trie_words g s)"
proof (rule suffix_hits_suffix)
  from ls show sf: "suffix (trie_words g s) x" by (simp add: lsuf_upto_def)
  fix k q assume k: "k < length x - length (trie_words g s)" and q: "q \<in> set ps"
  show "q \<noteq> drop k x"
  proof
    assume e: "q = drop k x"
    from pw q obtain v where v: "v \<in> nodes g" "trie_words g v = q" by blast
    with e L have "suffix (trie_words g v) x" "length (trie_words g v) \<le> L"
      by (simp_all add: suffix_drop)
    with ls v(1) have "length (trie_words g v) \<le> length (trie_words g s)" by (simp add: lsuf_upto_def)
    with v(2) e k show False by simp
  qed
qed

lemma suffix_hits_take_Suc:
  "suffix_hits ps (take (Suc i) text) = suffix_hits ps (take i text @ [text ! i])" if "i < length text"
  using that by (simp add: take_Suc_conv_app_nth)

lemma record_fold:
  "fold (\<lambda>pattern. record_match pattern (i - int (length pattern) + 1)) qs result =
   fold (\<lambda>(q, pos). record_match q pos) (map (\<lambda>q. (q, i - int (length q) + 1)) qs) result"
  by (induction qs arbitrary: result) simp_all

lemma reports_Suc:
  assumes "k < length text"
  shows "concat (map (\<lambda>i. map (\<lambda>q. (q, int i - int (length q) + 1)) (suffix_hits ps (take (Suc i) text))) [0..<Suc k])
       = concat (map (\<lambda>i. map (\<lambda>q. (q, int i - int (length q) + 1)) (suffix_hits ps (take (Suc i) text))) [0..<k])
         @ map (\<lambda>q. (q, int k - int (length q) + 1)) (suffix_hits ps (take (Suc k) text))"
  by simp

lemma automaton_search_reports:
  assumes ok: "automaton_ok ps ac" and ne: "[] \<notin> set ps"
  shows "automaton_search ac text = Returns (fold (\<lambda>(q, pos). record_match q pos) (reports ps text) [])"
proof -
  let ?g = "goto ac" and ?w = "trie_words (goto ac)"
  let ?rep = "\<lambda>k. concat (map (\<lambda>i. map (\<lambda>q. (q, int i - int (length q) + 1))
                  (suffix_hits ps (take (Suc i) text))) [0..<k])"
  let ?I = "\<lambda>k (result, state). lsuf_upto ?g (take k text) k state \<and>
              result = fold (\<lambda>(q, pos). record_match q pos) (?rep k) []"
  from ok have tg: "trie ?g" and pw: "\<forall>p \<in> set ps. \<exists>t \<in> nodes ?g. ?w t = p"
    and fl: "\<forall>t \<in> nodes ?g. t \<noteq> 0 \<longrightarrow> (\<exists>f. fail ac t = Some f \<and> fail_ok ?g t f)"
    by (simp_all add: automaton_ok_def)
  from ok ne have out: "\<forall>t \<in> nodes ?g. output ac t = list_entry (suffix_hits ps (?w t))"
    by (simp add: automaton_ok_def)
  have "\<exists>r. for_each (scan_char ac) (map (\<lambda>i. (int i, text ! i)) [0..<length text]) ([], 0) = Returns r
          \<and> ?I (length text) r"
  proof (rule for_each_upt_gen [where I = ?I])
    from tg show "?I 0 ([], 0)" by (simp add: lsuf_upto_def nodes_def)
  next
    fix k and r :: "('a list \<times> int list) list \<times> int"
    assume k: "k < length text" and I: "?I k r"
    obtain result state where r: "r = (result, state)" by (cases r)
    from I r have ls: "lsuf_upto ?g (take k text) k state"
      and res: "result = fold (\<lambda>(q, pos). record_match q pos) (?rep k) []" by simp_all
    have "\<exists>e. follow_fail ?g (fail ac) (text ! k) state = Returns e \<and> e \<in> nodes ?g \<and>
             (map_of ?g (e, text ! k) = None \<longrightarrow> e = 0) \<and>
             lsuf_upto ?g (take k text @ [text ! k]) (Suc k)
               (case map_of ?g (e, text ! k) of Some t \<Rightarrow> t | None \<Rightarrow> 0)"
    proof (rule follow_fail_ok [OF tg ls])
      fix v assume "v \<in> nodes ?g" "v \<noteq> 0"
      with fl show "\<exists>f'. fail ac v = Some f' \<and> fail_ok ?g v f'" by simp
    qed
    then obtain e where ff: "follow_fail ?g (fail ac) (text ! k) state = Returns e"
      and en: "e \<in> nodes ?g" and e0: "map_of ?g (e, text ! k) = None \<longrightarrow> e = 0"
      and ls': "lsuf_upto ?g (take k text @ [text ! k]) (Suc k)
                  (case map_of ?g (e, text ! k) of Some t \<Rightarrow> t | None \<Rightarrow> 0)"
      by (elim exE conjE) (rule that)
    define state' where "state' = (case map_of ?g (e, text ! k) of Some t \<Rightarrow> t | None \<Rightarrow> e)"
    from e0 have st: "state' = (case map_of ?g (e, text ! k) of Some t \<Rightarrow> t | None \<Rightarrow> 0)"
      by (auto simp: state'_def split: option.splits)
    from k have tk: "take (Suc k) text = take k text @ [text ! k]" by (simp add: take_Suc_conv_app_nth)
    from ls' st tk have ls2: "lsuf_upto ?g (take (Suc k) text) (Suc k) state'" by simp
    then have sn: "state' \<in> nodes ?g" by (simp add: lsuf_upto_def)
    have hits: "suffix_hits ps (take (Suc k) text) = suffix_hits ps (?w state')"
      using tg pw ls2 by (rule suffix_hits_longest) simp
    from out sn have o: "output ac state' = list_entry (suffix_hits ps (?w state'))" by simp
    have stt: "(case map_of ?g (e, text ! k) of Some t \<Rightarrow> t | None \<Rightarrow> e) = state'"
      by (simp add: state'_def)
    have "scan_char ac (int k, text ! k) (result, state) =
        Returns (fold (\<lambda>pattern. record_match pattern (int k - int (length pattern) + 1))
                   (suffix_hits ps (?w state')) result, state')"
      by (cases "suffix_hits ps (?w state') = []") (simp_all add: scan_char_def ff stt o)
    then have "scan_char ac (int k, text ! k) (result, state) =
        Returns (fold (\<lambda>(q, pos). record_match q pos)
                   (map (\<lambda>q. (q, int k - int (length q) + 1)) (suffix_hits ps (?w state'))) result, state')"
      by (simp only: record_fold)
    moreover have "fold (\<lambda>(q, pos). record_match q pos)
                   (map (\<lambda>q. (q, int k - int (length q) + 1)) (suffix_hits ps (?w state'))) result
        = fold (\<lambda>(q, pos). record_match q pos) (?rep (Suc k)) []"
      unfolding reports_Suc [OF k] res hits by simp
    ultimately show "\<exists>s'. scan_char ac (int k, text ! k) r = Returns s' \<and> ?I (Suc k) s'"
      using ls2 r by simp
  qed simp
  then obtain r where a: "for_each (scan_char ac) (map (\<lambda>i. (int i, text ! i)) [0..<length text]) ([], 0) = Returns r"
    and b: "?I (length text) r" by blast
  obtain result state where r: "r = (result, state)" by (cases r)
  from b r have "result = fold (\<lambda>(q, pos). record_match q pos) (reports ps text) []"
    by (simp add: reports_def)
  then show ?thesis unfolding automaton_search_def zip_index a r by simp
qed
subsection \<open>Building the failure links\<close>

lemma for_each_prefix_gen:
  assumes "xs = pre @ ys" and "I pre s"
    and "\<And>pre x post s. xs = pre @ x # post \<Longrightarrow> I pre s \<Longrightarrow> \<exists>s'. f x s = Returns s' \<and> I (pre @ [x]) s'"
  shows "\<exists>s'. for_each f ys s = Returns s' \<and> I xs s'"
  using assms(1,2)
proof (induction ys arbitrary: pre s)
  case Nil
  then show ?case by simp
next
  case (Cons y ys)
  from assms(3) [OF Cons.prems] obtain s1 where s1: "f y s = Returns s1" "I (pre @ [y]) s1" by blast
  from Cons.prems(1) have "xs = (pre @ [y]) @ ys" by simp
  from Cons.IH [OF this s1(2)] s1(1) show ?case by simp
qed

lemma for_each_prefix:
  assumes "I [] s"
    and "\<And>pre x post s. xs = pre @ x # post \<Longrightarrow> I pre s \<Longrightarrow> \<exists>s'. f x s = Returns s' \<and> I (pre @ [x]) s'"
  shows "\<exists>s'. for_each f xs s = Returns s' \<and> I xs s'"
  using for_each_prefix_gen [of xs "[]" xs I s f] assms by simp

lemma out_chars_set: "trie g \<Longrightarrow> set (out_chars g r) = {c. map_of g (r, c) \<noteq> None}"
proof -
  assume tg: "trie g"
  have "c \<in> set (out_chars g r) \<longleftrightarrow> (\<exists>t. ((r, c), t) \<in> set g)" for c
    by (force simp: out_chars_def)
  then show ?thesis using trie_map_of [OF tg] by auto
qed

lemma out_chars_distinct: "distinct (out_chars g r)"
  by (simp add: out_chars_def)

lemma kids_level:
  assumes tg: "trie g"
  shows "kids g (level g d) = level g (Suc d)"
proof (intro set_eqI iffI)
  fix u assume "u \<in> kids g (level g d)"
  then obtain s c where s: "s \<in> level g d" "map_of g (s, c) = Some u" by (auto simp: kids_def)
  from trie_step_word [OF tg s(2)] s(1) show "u \<in> level g (Suc d)" by (simp add: level_def)
next
  fix u assume u: "u \<in> level g (Suc d)"
  then have un: "u \<in> nodes g" and len: "length (trie_words g u) = Suc d" by (simp_all add: level_def)
  from len trie_words_empty_iff [OF tg un] have "u \<noteq> 0" by auto
  with un have "1 \<le> u" "u \<le> int (length g)" by (simp_all add: nodes_def)
  from trie_target [OF tg this] obtain s c where e: "((s, c), u) \<in> set g" by blast
  then have m: "map_of g (s, c) = Some u" using tg by (simp add: trie_map_of)
  from trie_step_word [OF tg m] len have "s \<in> level g d" by (simp add: level_def)
  with m show "u \<in> kids g (level g d)" by (auto simp: kids_def)
qed

lemma trie_parent_unique:
  assumes tg: "trie g" and "map_of g (s, c) = Some u" "map_of g (s', c') = Some u"
  shows "s = s' \<and> c = c'"
proof -
  from trie_step_word [OF tg assms(2)] trie_step_word [OF tg assms(3)]
  have w: "trie_words g s @ [c] = trie_words g s' @ [c']" and n: "s \<in> nodes g" "s' \<in> nodes g"
    by simp_all
  then have "trie_words g s = trie_words g s'" "c = c'" by simp_all
  with n trie_words_inj [OF tg] show ?thesis by (auto dest: inj_onD)
qed

lemma level_shallower:
  assumes tg: "trie g" and t: "t \<in> nodes g" and k: "k \<le> length (trie_words g t)"
  shows "\<exists>s \<in> nodes g. length (trie_words g s) = k"
  using t k
proof (induction "length (trie_words g t)" arbitrary: t)
  case 0
  then show ?case by auto
next
  case (Suc n)
  show ?case
  proof (cases "k = Suc n")
    case True
    with Suc.hyps(2) Suc.prems(1) show ?thesis by auto
  next
    case False
    from Suc.hyps(2) trie_words_empty_iff [OF tg Suc.prems(1)] have "t \<noteq> 0" by auto
    with Suc.prems(1) have "1 \<le> t" "t \<le> int (length g)" by (simp_all add: nodes_def)
    from trie_target [OF tg this] obtain s c where e: "((s, c), t) \<in> set g" by blast
    then have m: "map_of g (s, c) = Some t" using tg by (simp add: trie_map_of)
    from trie_step_word [OF tg m] Suc.hyps(2) have s: "s \<in> nodes g" "n = length (trie_words g s)"
      by simp_all
    from False Suc.prems(2) Suc.hyps(2) have "k \<le> length (trie_words g s)" using s(2) by simp
    from Suc.hyps(1) [OF s(2) s(1) this] show ?thesis .
  qed
qed

lemma suffix_hits_Nil [simp]: "suffix_hits ps [] = []"
  by (simp add: suffix_hits_def)

lemma suffix_hits_Cons:
  "suffix_hits ps (a # y) = filter (\<lambda>q. q = a # y) ps @ suffix_hits ps y"
proof -
  have "[0..<length (a # y)] = 0 # map Suc [0..<length y]"
    by (simp add: upt_conv_Cons map_Suc_upt del: upt_Suc)
  then show ?thesis by (simp add: suffix_hits_def comp_def del: upt_Suc)
qed

lemma suffix_hits_single: "suffix_hits ps [a] = filter (\<lambda>q. q = [a]) ps"
  by (simp add: suffix_hits_Cons)

lemma suffix_hits_fail:
  assumes tg: "trie g" and pw: "\<forall>p \<in> set ps. \<exists>t \<in> nodes g. trie_words g t = p"
    and u: "u \<in> nodes g" "u \<noteq> 0" and ok: "fail_ok g u fu"
  shows "suffix_hits ps (trie_words g u) = filter (\<lambda>q. q = trie_words g u) ps @ suffix_hits ps (trie_words g fu)"
proof -
  let ?w = "trie_words g"
  from u trie_words_empty_iff [OF tg u(1)] obtain a y where x: "?w u = a # y" by (cases "?w u") auto
  from ok x have fu: "fu \<in> nodes g" "suffix (?w fu) (a # y)" "length (?w fu) \<le> length y"
    and mx: "\<forall>v \<in> nodes g. suffix (?w v) (a # y) \<and> length (?w v) \<le> length y \<longrightarrow> length (?w v) \<le> length (?w fu)"
    by (simp_all add: fail_ok_def lsuf_upto_def)
  have sy: "suffix y (a # y)" by (simp add: suffix_Cons)
  from suffix_shorter [OF fu(2) sy fu(3)] have "suffix (?w fu) y" .
  moreover have "length (?w v) \<le> length (?w fu)" if "v \<in> nodes g" "suffix (?w v) y" for v
    using mx that sy suffix_order.trans suffix_length_le by blast
  ultimately have "lsuf_upto g y (length y) fu" using fu(1,3) by (simp add: lsuf_upto_def)
  from suffix_hits_longest [OF tg pw this] have "suffix_hits ps y = suffix_hits ps (?w fu)" by simp
  then show ?thesis by (simp add: x suffix_hits_Cons)
qed
lemma own_patterns_zero:
  assumes "trie g" "[] \<notin> set ps"
  shows "own_patterns g ps 0 = []"
  using assms by (auto simp: own_patterns_def filter_empty_conv)

lemma link_child_ok:
  assumes st: "bfs_state g ps d qd qn ac" and r: "r \<in> level g d"
    and m: "map_of g (r, c) = Some u" and new: "u \<notin> set qn"
  shows "\<exists>ac'. link_child r c (ac, qd @ qn) = Returns (ac', qd @ qn @ [u]) \<and>
           bfs_state g ps d qd (qn @ [u]) ac' \<and> dom (fail ac') = insert u (dom (fail ac)) \<and>
           u \<in> nodes g \<and> u \<notin> dom (fail ac)"
proof -
  let ?w = "trie_words g"
  from st have g: "goto ac = g" and tg: "trie g" and pw: "\<forall>p \<in> set ps. \<exists>t \<in> nodes g. ?w t = p"
    and d1: "1 \<le> d"
    and dm: "dom (fail ac) = {t \<in> nodes g. 1 \<le> length (?w t) \<and> length (?w t) \<le> d} \<union> set qn"
    and qd: "set qd \<subseteq> level g d" and qn: "set qn \<subseteq> level g (Suc d)" and dist: "distinct (qd @ qn)"
    and fo: "\<forall>u \<in> dom (fail ac). \<exists>f. fail ac u = Some f \<and> fail_ok g u f"
    and out: "[] \<notin> set ps \<longrightarrow> (\<forall>t. output ac t =
           list_entry (if t \<in> dom (fail ac) then suffix_hits ps (?w t) else own_patterns g ps t))"
    by (simp_all add: bfs_state_def)
  from r have rn: "r \<in> nodes g" and rl: "length (?w r) = d" by (simp_all add: level_def)
  from trie_step_word [OF tg m] have un: "u \<in> nodes g" and wu: "?w u = ?w r @ [c]" and u0: "u \<noteq> 0"
    by simp_all
  from wu rl have ul: "length (?w u) = Suc d" by simp
  with un have ulv: "u \<in> level g (Suc d)" by (simp add: level_def)
  from ul new dm have und: "u \<notin> dom (fail ac)" by auto
  from rn rl d1 dm have "r \<in> dom (fail ac)" by auto
  with fo obtain fr where fr: "fail ac r = Some fr" and fro: "fail_ok g r fr" by blast
  from fro rl have ls: "lsuf_upto g (?w r) (d - 1) fr" by (simp add: fail_ok_def)
  then have frl: "length (?w fr) \<le> d - 1" by (simp add: lsuf_upto_def)
  have "\<exists>e. follow_fail g (fail ac) c fr = Returns e \<and> e \<in> nodes g \<and>
             (map_of g (e, c) = None \<longrightarrow> e = 0) \<and>
             lsuf_upto g (?w r @ [c]) (Suc (d - 1)) (case map_of g (e, c) of Some t \<Rightarrow> t | None \<Rightarrow> 0)"
  proof (rule follow_fail_ok [OF tg ls])
    fix v assume v: "v \<in> nodes g" "v \<noteq> 0" "length (?w v) \<le> length (?w fr)"
    from trie_words_empty_iff [OF tg v(1)] v(2) have "1 \<le> length (?w v)" by (cases "?w v") auto
    with v frl dm have "v \<in> dom (fail ac)" by auto
    with fo show "\<exists>f'. fail ac v = Some f' \<and> fail_ok g v f'" by blast
  qed
  then obtain e where ff: "follow_fail g (fail ac) c fr = Returns e"
    and lsu: "lsuf_upto g (?w r @ [c]) (Suc (d - 1)) (case map_of g (e, c) of Some t \<Rightarrow> t | None \<Rightarrow> 0)"
    by (elim exE conjE) (rule that)
  define fu where "fu = (case map_of g (e, c) of Some t \<Rightarrow> t | None \<Rightarrow> 0)"
  from lsu d1 wu ul have fuo: "fail_ok g u fu" by (simp add: fail_ok_def fu_def)
  then have fnode: "fu \<in> nodes g" and ful: "length (?w fu) \<le> d"
    using ul by (simp_all add: fail_ok_def lsuf_upto_def)
  define ac1 where "ac1 = ac\<lparr>fail := (fail ac)(u \<mapsto> fu)\<rparr>"
  define ac' where "ac' = (case output ac1 fu of None \<Rightarrow> ac1
        | Some l \<Rightarrow> ac1\<lparr>output := (output ac1)(u \<mapsto> (case output ac1 u of None \<Rightarrow> [] | Some qs \<Rightarrow> qs) @ l)\<rparr>)"
  have run: "link_child r c (ac, qd @ qn) = Returns (ac', qd @ qn @ [u])"
  proof (cases "output ac fu")
    case None
    then have "output ac (case map_of g (e, c) of Some t \<Rightarrow> t | None \<Rightarrow> 0) = None"
      by (simp add: fu_def)
    with None show ?thesis
      by (simp add: link_child_def g m fr ff py_lookup_def Let_def ac'_def ac1_def fu_def [symmetric])
  next
    case (Some l)
    then have "output ac (case map_of g (e, c) of Some t \<Rightarrow> t | None \<Rightarrow> 0) = Some l"
      by (simp add: fu_def)
    with Some show ?thesis
      by (simp add: link_child_def g m fr ff py_lookup_def Let_def ac'_def ac1_def fu_def [symmetric])
  qed
  have gf: "goto ac' = g" "fail ac' = (fail ac)(u \<mapsto> fu)"
    by (simp_all add: ac'_def ac1_def g split: option.splits)
  have dom': "dom (fail ac') = insert u (dom (fail ac))" by (simp add: gf)
  have fo': "\<forall>x \<in> dom (fail ac'). \<exists>f. fail ac' x = Some f \<and> fail_ok g x f"
    using fo fuo by (auto simp: gf)
  have out': "output ac' t = list_entry (if t \<in> dom (fail ac') then suffix_hits ps (?w t)
                       else own_patterns g ps t)" if ne: "[] \<notin> set ps" for t
  proof -
    from out ne have o: "\<And>t. output ac t =
           list_entry (if t \<in> dom (fail ac) then suffix_hits ps (?w t) else own_patterns g ps t)"
      by simp
    have ofu: "output ac fu = list_entry (suffix_hits ps (?w fu))"
    proof (cases "fu = 0")
      case True
      with o [of 0] own_patterns_zero [OF tg ne] tg dm show ?thesis by (auto simp: list_entry_def)
    next
      case False
      with trie_words_empty_iff [OF tg fnode] have "1 \<le> length (?w fu)" by (cases "?w fu") auto
      with fnode ful dm have "fu \<in> dom (fail ac)" by auto
      with o [of fu] show ?thesis by simp
    qed
    from o [of u] und un have ou: "output ac u = list_entry (filter (\<lambda>q. q = ?w u) ps)"
      by (simp add: own_patterns_def)
    have hits: "suffix_hits ps (?w u) = filter (\<lambda>q. q = ?w u) ps @ suffix_hits ps (?w fu)"
      using tg pw un u0 fuo by (rule suffix_hits_fail)
    have o1: "output ac1 = output ac" by (simp add: ac1_def)
    show ?thesis
    proof (cases "t = u")
      case True
      show ?thesis
      proof (cases "suffix_hits ps (?w fu) = []")
        case e: True
        with ofu have "output ac' = output ac" by (simp add: ac'_def o1)
        with True ou hits e dom' show ?thesis by simp
      next
        case ne': False
        with ofu have "output ac' = (output ac)(u \<mapsto> filter (\<lambda>q. q = ?w u) ps @ suffix_hits ps (?w fu))"
          by (simp add: ac'_def o1 ou)
        with True hits ne' dom' show ?thesis by simp
      qed
    next
      case False
      then have "output ac' t = output ac t" by (simp add: ac'_def o1 split: option.splits)
      with False o [of t] dom' show ?thesis by simp
    qed
  qed
  have "distinct (qd @ qn @ [u])"
  proof -
    from qd ul have "u \<notin> set qd" by (auto simp: level_def)
    with dist new show ?thesis by simp
  qed
  moreover have "dom (fail ac') = {t \<in> nodes g. 1 \<le> length (?w t) \<and> length (?w t) \<le> d} \<union> set (qn @ [u])"
    using dom' dm by auto
  ultimately have "bfs_state g ps d qd (qn @ [u]) ac'"
    using gf(1) tg pw d1 qd qn ulv fo' out' by (simp add: bfs_state_def)
  with run dom' un und show ?thesis by blast
qed
lemma kids_union: "kids g (A \<union> B) = kids g A \<union> kids g B"
  by (auto simp: kids_def)

lemma kids_single: "trie g \<Longrightarrow> kids g {r} = {u. \<exists>c \<in> set (out_chars g r). map_of g (r, c) = Some u}"
  by (auto simp: kids_def out_chars_set)

lemma finite_nodes [simp]: "finite (nodes g)"
  by (simp add: nodes_def)

lemma card_nodes_insert:
  assumes "u \<in> nodes g" "u \<notin> A"
  shows "card (nodes g - insert u A) + 1 = card (nodes g - A)"
proof -
  have "nodes g - A = insert u (nodes g - insert u A)" using assms by auto
  moreover have "u \<notin> nodes g - insert u A" by simp
  ultimately show ?thesis by (metis Suc_eq_plus1 card_insert_disjoint finite_Diff finite_nodes)
qed

lemma bfs_step_ok:
  assumes st: "bfs_state g ps d (r # qd) qn ac"
    and k: "set qn = kids g (level g d - set (r # qd))"
  shows "\<exists>ac' qn'. bfs_step (ac, r # qd @ qn) = Returns (ac', qd @ qn') \<and>
           bfs_state g ps d qd qn' ac' \<and> set qn' = kids g (level g d - set qd) \<and>
           card (nodes g - dom (fail ac')) + length (qd @ qn')
             < card (nodes g - dom (fail ac)) + length (r # qd @ qn)"
proof -
  from st have g: "goto ac = g" and tg: "trie g" and rl: "r \<in> level g d" and rq: "r \<notin> set qd"
    by (simp_all add: bfs_state_def)
  from st have st0: "bfs_state g ps d qd qn ac" by (simp add: bfs_state_def)
  let ?M = "card (nodes g - dom (fail ac)) + length (qd @ qn)"
  let ?T = "\<lambda>pre. {u. \<exists>c \<in> set pre. map_of g (r, c) = Some u}"
  let ?I = "\<lambda>pre (ac', queue'). \<exists>qn'. queue' = qd @ qn' \<and> bfs_state g ps d qd qn' ac' \<and>
              set qn' = set qn \<union> ?T pre \<and>
              card (nodes g - dom (fail ac')) + length queue' = ?M"
  have "\<exists>s'. for_each (link_child r) (out_chars g r) (ac, qd @ qn) = Returns s' \<and> ?I (out_chars g r) s'"
  proof (rule for_each_prefix [where I = ?I])
    from st0 show "?I [] (ac, qd @ qn)" by auto
  next
    fix pre c post and s :: "'a automaton \<times> int list"
    assume xs: "out_chars g r = pre @ c # post" and I: "?I pre s"
    obtain ac1 queue1 where s: "s = (ac1, queue1)" by (cases s)
    from I s obtain qn1 where q1: "queue1 = qd @ qn1" and st1: "bfs_state g ps d qd qn1 ac1"
      and s1: "set qn1 = set qn \<union> ?T pre"
      and m1: "card (nodes g - dom (fail ac1)) + length queue1 = ?M" by auto
    from xs have "c \<in> set (out_chars g r)" by simp
    with out_chars_set [OF tg] obtain u where m: "map_of g (r, c) = Some u" by auto
    from out_chars_distinct [of g r] xs have cpre: "c \<notin> set pre" by simp
    have new: "u \<notin> set qn1"
    proof
      assume "u \<in> set qn1"
      with s1 consider "u \<in> set qn" | "u \<in> ?T pre" by blast
      then show False
      proof cases
        case 1
        with k obtain s' c' where "s' \<in> level g d - set (r # qd)" "map_of g (s', c') = Some u"
          by (auto simp: kids_def)
        with trie_parent_unique [OF tg m this(2)] show False by simp
      next
        case 2
        then obtain c' where "c' \<in> set pre" "map_of g (r, c') = Some u" by blast
        with trie_parent_unique [OF tg m this(2)] cpre show False by simp
      qed
    qed
    from link_child_ok [OF st1 rl m new] obtain ac2
      where run: "link_child r c (ac1, qd @ qn1) = Returns (ac2, qd @ qn1 @ [u])"
        and st2: "bfs_state g ps d qd (qn1 @ [u]) ac2"
        and d2: "dom (fail ac2) = insert u (dom (fail ac1))"
        and un: "u \<in> nodes g" "u \<notin> dom (fail ac1)" by blast
    from card_nodes_insert [OF un] m1 q1 d2
    have m2: "card (nodes g - dom (fail ac2)) + length (qd @ qn1 @ [u]) = ?M" by simp
    have "set (qn1 @ [u]) = set qn \<union> ?T (pre @ [c])"
    proof -
      have "?T (pre @ [c]) = insert u (?T pre)" using m by auto
      with s1 show ?thesis by auto
    qed
    with run st2 m2 s q1 show "\<exists>s'. link_child r c s = Returns s' \<and> ?I (pre @ [c]) s'"
      by auto
  qed
  then obtain ac' queue' where fe: "for_each (link_child r) (out_chars g r) (ac, qd @ qn) = Returns (ac', queue')"
    and I: "?I (out_chars g r) (ac', queue')" by auto
  from I obtain qn' where q': "queue' = qd @ qn'" and st': "bfs_state g ps d qd qn' ac'"
    and s': "set qn' = set qn \<union> ?T (out_chars g r)"
    and m': "card (nodes g - dom (fail ac')) + length queue' = ?M" by auto
  have "level g d - set qd = (level g d - set (r # qd)) \<union> {r}" using rl rq by auto
  then have "kids g (level g d - set qd) = kids g (level g d - set (r # qd)) \<union> kids g {r}"
    by (simp only: kids_union)
  then have "kids g (level g d - set qd) = set qn \<union> kids g {r}"
    by (simp only: k)
  with s' kids_single [OF tg, of r] have "set qn' = kids g (level g d - set qd)" by simp
  moreover have "bfs_step (ac, r # qd @ qn) = Returns (ac', qd @ qn')"
    using fe q' by (simp add: bfs_step_def g)
  ultimately show ?thesis using st' m' q' by auto
qed
lemma level_zero:
  assumes tg: "trie g"
  shows "level g 0 = {0}"
proof -
  have z: "0 \<in> nodes g" by (simp add: nodes_def)
  have "t \<in> level g 0 \<longleftrightarrow> t = 0" for t
  proof (cases "t \<in> nodes g")
    case True
    from trie_words_empty_iff [OF tg True] True show ?thesis by (simp add: level_def)
  next
    case False
    with z show ?thesis by (auto simp: level_def)
  qed
  then show ?thesis by blast
qed

lemma bfs_shift:
  assumes st: "bfs_state g ps d [] qn ac" and k: "set qn = kids g (level g d - set [])"
  shows "bfs_state g ps (Suc d) qn [] ac \<and> set [] = kids g (level g (Suc d) - set qn)"
proof -
  from st have tg: "trie g" by (simp add: bfs_state_def)
  from k kids_level [OF tg] have q: "set qn = level g (Suc d)" by simp
  have "{t \<in> nodes g. 1 \<le> length (trie_words g t) \<and> length (trie_words g t) \<le> d} \<union> level g (Suc d)
      = {t \<in> nodes g. 1 \<le> length (trie_words g t) \<and> length (trie_words g t) \<le> Suc d}"
    unfolding level_def by (intro set_eqI) (simp; arith)
  then have dm: "{t \<in> nodes g. 1 \<le> length (trie_words g t) \<and> length (trie_words g t) \<le> d} \<union> set qn
      = {t \<in> nodes g. 1 \<le> length (trie_words g t) \<and> length (trie_words g t) \<le> Suc d} \<union> set []"
    by (simp only: q set_simps Un_empty_right)
  have kd: "kids g (level g (Suc d) - set qn) = {}" unfolding q by (simp add: kids_def)
  from st have "bfs_state g ps (Suc d) qn [] ac"
    unfolding bfs_state_def dm using q by simp
  with kd show ?thesis by simp
qed

lemma bfs_final:
  assumes st: "bfs_state g ps d [] [] ac" and k: "set [] = kids g (level g d - set [])"
  shows "automaton_ok ps ac"
proof -
  let ?w = "trie_words g"
  from st have g: "goto ac = g" and tg: "trie g" and pw: "\<forall>p \<in> set ps. \<exists>t \<in> nodes g. ?w t = p"
    and dm: "dom (fail ac) = {t \<in> nodes g. 1 \<le> length (?w t) \<and> length (?w t) \<le> d}"
    and fo: "\<forall>u \<in> dom (fail ac). \<exists>f. fail ac u = Some f \<and> fail_ok g u f"
    and out: "[] \<notin> set ps \<longrightarrow> (\<forall>t. output ac t =
           list_entry (if t \<in> dom (fail ac) then suffix_hits ps (?w t) else own_patterns g ps t))"
    by (simp_all add: bfs_state_def)
  from k kids_level [OF tg] have empty: "level g (Suc d) = {}" by simp
  have deep: "length (?w t) \<le> d" if t: "t \<in> nodes g" for t
  proof (rule ccontr)
    assume "\<not> length (?w t) \<le> d"
    then have "Suc d \<le> length (?w t)" by simp
    from level_shallower [OF tg t this] empty show False by (auto simp: level_def)
  qed
  have indom: "t \<in> dom (fail ac)" if t: "t \<in> nodes g" "t \<noteq> 0" for t
  proof -
    from trie_words_empty_iff [OF tg t(1)] t(2) have "1 \<le> length (?w t)" by (cases "?w t") auto
    with deep [OF t(1)] t(1) dm show ?thesis by simp
  qed
  have "output ac t = list_entry (suffix_hits ps (?w t))" if ne: "[] \<notin> set ps" and t: "t \<in> nodes g" for t
  proof (cases "t = 0")
    case True
    from out ne have "output ac 0 = list_entry (if 0 \<in> dom (fail ac) then suffix_hits ps (?w 0) else own_patterns g ps 0)"
      by simp
    with True tg own_patterns_zero [OF tg ne] show ?thesis by simp
  next
    case False
    with indom [OF t] out ne show ?thesis by simp
  qed
  then have o: "[] \<notin> set ps \<longrightarrow> (\<forall>t \<in> nodes g. output ac t = list_entry (suffix_hits ps (?w t)))"
    by blast
  have f: "\<forall>t \<in> nodes g. t \<noteq> 0 \<longrightarrow> (\<exists>f. fail ac t = Some f \<and> fail_ok g t f)"
    using fo indom by blast
  show ?thesis unfolding automaton_ok_def g using tg pw f o by (intro conjI)
qed

lemma bfs_loop_ok:
  assumes st: "bfs_state g ps d qd qn ac" and k: "set qn = kids g (level g d - set qd)"
  shows "\<exists>ac'. and_then (py_while (\<lambda>(ac, queue). Returns (queue \<noteq> [])) bfs_step (ac, qd @ qn))
                  (\<lambda>(ac, queue). Returns ac) = Returns ac' \<and> automaton_ok ps ac'"
proof -
  let ?I = "\<lambda>(ac, queue). \<exists>d qd qn. queue = qd @ qn \<and> bfs_state g ps d qd qn ac \<and>
              set qn = kids g (level g d - set qd)"
  let ?m = "\<lambda>(ac, queue). card (nodes g - dom (fail ac)) + length queue"
  let ?b = "\<lambda>(ac :: 'a automaton, queue :: int list). Returns (queue \<noteq> [])"
  have "\<exists>s. py_while ?b bfs_step (ac, qd @ qn) = Returns s \<and> ?I s \<and> ?b s = Returns False"
  proof (rule py_while_total [where I = ?I and m = ?m])
    from st k show "?I (ac, qd @ qn)" by auto
  next
    fix s :: "'a automaton \<times> int list"
    assume I: "?I s"
    obtain ac1 queue where s: "s = (ac1, queue)" by (cases s)
    show "?b s = Returns False \<or>
          (?b s = Returns True \<and> (\<exists>s'. bfs_step s = Returns s' \<and> ?I s' \<and> ?m s' < ?m s))"
    proof (cases "queue = []")
      case True
      with s show ?thesis by simp
    next
      case False
      from I s obtain d0 qd0 qn0 where q0: "queue = qd0 @ qn0" and st0: "bfs_state g ps d0 qd0 qn0 ac1"
        and k0: "set qn0 = kids g (level g d0 - set qd0)" by auto
      have "\<exists>d1 r qd1 qn1. queue = r # qd1 @ qn1 \<and> bfs_state g ps d1 (r # qd1) qn1 ac1 \<and>
               set qn1 = kids g (level g d1 - set (r # qd1))"
      proof (cases qd0)
        case Nil
        from bfs_shift [OF st0 [unfolded Nil] k0 [unfolded Nil]]
        have a: "bfs_state g ps (Suc d0) qn0 [] ac1" and b: "set [] = kids g (level g (Suc d0) - set qn0)"
          by simp_all
        from False q0 Nil obtain r qd1 where c: "qn0 = r # qd1" by (cases qn0) auto
        from a b show ?thesis unfolding c using q0 Nil c
          by (intro exI [of _ "Suc d0"] exI [of _ r] exI [of _ qd1] exI [of _ "[]"]) simp
      next
        case (Cons r qd1)
        with q0 st0 k0 show ?thesis
          by (intro exI [of _ d0] exI [of _ r] exI [of _ qd1] exI [of _ qn0]) simp
      qed
      then obtain d1 r qd1 qn1 where q1: "queue = r # qd1 @ qn1"
        and st1: "bfs_state g ps d1 (r # qd1) qn1 ac1"
        and k1: "set qn1 = kids g (level g d1 - set (r # qd1))" by blast
      from bfs_step_ok [OF st1 k1] obtain ac2 qn2
        where run: "bfs_step (ac1, r # qd1 @ qn1) = Returns (ac2, qd1 @ qn2)"
          and st2: "bfs_state g ps d1 qd1 qn2 ac2" and k2: "set qn2 = kids g (level g d1 - set qd1)"
          and lt: "card (nodes g - dom (fail ac2)) + length (qd1 @ qn2)
                    < card (nodes g - dom (fail ac1)) + length (r # qd1 @ qn1)" by blast
      have "?I (ac2, qd1 @ qn2)" using st2 k2 by auto
      with run lt s q1 False show ?thesis by auto
    qed
  qed
  then obtain ac' queue' where w: "py_while ?b bfs_step (ac, qd @ qn) = Returns (ac', queue')"
    and I: "?I (ac', queue')" and stop: "?b (ac', queue') = Returns False" by auto
  from stop have e: "queue' = []" by simp
  with I obtain d' where "bfs_state g ps d' [] [] ac'" "set [] = kids g (level g d' - set [])"
    by auto
  from bfs_final [OF this] w show ?thesis by simp
qed
lemma root_links_ok:
  assumes p1: "phase1 ps ac"
  shows "\<exists>f queue. root_links ac = Returns (f, queue) \<and>
           bfs_state (goto ac) ps 1 queue [] (ac\<lparr>fail := f\<rparr>) \<and>
           set [] = kids (goto ac) (level (goto ac) 1 - set queue)"
proof -
  let ?g = "goto ac" and ?w = "trie_words (goto ac)"
  from p1 have tg: "trie ?g" and fe: "fail ac = Map.empty"
    and pw: "\<forall>q \<in> set ps. \<exists>t \<in> nodes ?g. ?w t = q"
    and out: "\<forall>t. output ac t = list_entry (own_patterns ?g ps t)"
    by (simp_all add: phase1_def)
  let ?T = "\<lambda>pre. {u. \<exists>c \<in> set pre. map_of ?g (0, c) = Some u}"
  let ?I = "\<lambda>pre (f, queue). set queue = ?T pre \<and> distinct queue \<and>
              f = (\<lambda>u. if u \<in> ?T pre then Some 0 else None)"
  let ?body = "\<lambda>char (f :: int \<rightharpoonup> int, queue).
          and_then (py_lookup (map_of ?g) (0, char)) (\<lambda>state.
            Returns (f(state \<mapsto> 0), queue @ [state]))"
  have "\<exists>s'. for_each ?body (out_chars ?g 0) (fail ac, []) = Returns s' \<and> ?I (out_chars ?g 0) s'"
  proof (rule for_each_prefix [where I = ?I])
    show "?I [] (fail ac, [])" by (simp add: fe)
  next
    fix pre c post and s :: "(int \<rightharpoonup> int) \<times> int list"
    assume xs: "out_chars ?g 0 = pre @ c # post" and I: "?I pre s"
    obtain f queue where s: "s = (f, queue)" by (cases s)
    from I s have q: "set queue = ?T pre" and dq: "distinct queue"
      and f: "f = (\<lambda>u. if u \<in> ?T pre then Some 0 else None)" by simp_all
    from xs have "c \<in> set (out_chars ?g 0)" by simp
    with out_chars_set [OF tg] obtain u where m: "map_of ?g (0, c) = Some u" by auto
    from out_chars_distinct [of ?g 0] xs have cpre: "c \<notin> set pre" by simp
    have new: "u \<notin> ?T pre"
    proof
      assume "u \<in> ?T pre"
      then obtain c' where "c' \<in> set pre" "map_of ?g (0, c') = Some u" by blast
      with trie_parent_unique [OF tg m this(2)] cpre show False by simp
    qed
    have T': "?T (pre @ [c]) = insert u (?T pre)" using m by auto
    have "f(u \<mapsto> 0) = (\<lambda>x. if x \<in> ?T (pre @ [c]) then Some 0 else None)"
      unfolding T' f by (rule ext) simp
    moreover have "set (queue @ [u]) = ?T (pre @ [c])" unfolding T' using q by simp
    moreover have "distinct (queue @ [u])" using dq new q by simp
    moreover have "?body c s = Returns (f(u \<mapsto> 0), queue @ [u])"
      by (simp add: s m py_lookup_def)
    ultimately show "\<exists>s'. ?body c s = Returns s' \<and> ?I (pre @ [c]) s'" by simp
  qed
  then obtain f queue where run: "root_links ac = Returns (f, queue)"
    and q: "set queue = ?T (out_chars ?g 0)" and dq: "distinct queue"
    and f: "f = (\<lambda>u. if u \<in> ?T (out_chars ?g 0) then Some 0 else None)"
    by (auto simp: root_links_def)
  from kids_single [OF tg, of 0] kids_level [OF tg, of 0] level_zero [OF tg]
  have T: "?T (out_chars ?g 0) = level ?g 1" by simp
  have l1: "level ?g 1 = {t \<in> nodes ?g. 1 \<le> length (?w t) \<and> length (?w t) \<le> 1}"
    unfolding level_def by (intro set_eqI) (simp; arith)
  have dm: "dom f = level ?g 1" unfolding f T by (auto split: if_splits)
  have fo: "\<exists>f'. f u = Some f' \<and> fail_ok ?g u f'" if "u \<in> dom f" for u
  proof -
    from that dm have u: "u \<in> level ?g 1" by simp
    then have "f u = Some 0" by (simp add: f T)
    moreover from u tg have "fail_ok ?g u 0"
      by (simp add: fail_ok_def lsuf_upto_def level_def nodes_def)
    ultimately show ?thesis by simp
  qed
  have oo: "output ac t = list_entry (if t \<in> dom f then suffix_hits ps (?w t) else own_patterns ?g ps t)" for t
  proof (cases "t \<in> dom f")
    case True
    with dm have t: "t \<in> nodes ?g" "length (?w t) = 1" by (simp_all add: level_def)
    then obtain a where "?w t = [a]" by (cases "?w t") auto
    with t(1) have "suffix_hits ps (?w t) = own_patterns ?g ps t"
      by (simp add: suffix_hits_single own_patterns_def)
    with True out show ?thesis by simp
  next
    case False
    with out show ?thesis by simp
  qed
  have "bfs_state ?g ps 1 queue [] (ac\<lparr>fail := f\<rparr>)"
    unfolding bfs_state_def using tg pw dm l1 q T dq fo oo by simp
  moreover have "kids ?g (level ?g 1 - set queue) = {}" using q T by (simp add: kids_def)
  ultimately show ?thesis using run by simp
qed

lemma build_automaton_ok:
  "\<exists>ac. build_automaton ps new_automaton = Returns ac \<and> automaton_ok ps ac"
proof -
  let ?ac = "fold trie_pattern ps new_automaton"
  from root_links_ok [OF phase1_patterns [of ps]] obtain f queue
    where rl: "root_links ?ac = Returns (f, queue)"
      and st: "bfs_state (goto ?ac) ps 1 queue [] (?ac\<lparr>fail := f\<rparr>)"
      and k: "set [] = kids (goto ?ac) (level (goto ?ac) 1 - set queue)" by blast
  from bfs_loop_ok [OF st k] rl show ?thesis
    by (simp add: build_automaton_def)
qed

section \<open>The dispatcher on several patterns\<close>

lemma first_seen_Nil [simp]: "first_seen [] = []"
  by (simp add: first_seen_def)

lemma first_seen_snoc:
  "first_seen (xs @ [x]) = (if x \<in> set xs then first_seen xs else first_seen xs @ [x])"
  by (simp add: first_seen_def)

lemma set_first_seen [simp]: "set (first_seen xs) = set xs"
  by (simp add: first_seen_def)

lemma distinct_first_seen [simp]: "distinct (first_seen xs)"
  by (simp add: first_seen_def)

lemma record_match_group:
  "fold (\<lambda>(q, pos). record_match q pos) rs [] =
   map (\<lambda>q. (q, map snd (filter (\<lambda>r. fst r = q) rs))) (first_seen (map fst rs))"
proof (induction rs rule: rev_induct)
  case Nil
  show ?case by simp
next
  case (snoc r rs)
  obtain q p where r: "r = (q, p)" by (cases r)
  let ?G = "\<lambda>rs. map (\<lambda>q. (q, map snd (filter (\<lambda>r. fst r = q) rs))) (first_seen (map fst rs))"
  have mo: "map_of (?G rs) q = None \<longleftrightarrow> q \<notin> fst ` set rs"
    by (simp add: map_of_eq_None_iff image_image)
  show ?case
  proof (cases "q \<in> fst ` set rs")
    case False
    then have e: "filter (\<lambda>r. fst r = q) rs = []" by (auto simp: filter_empty_conv)
    have "?G (rs @ [r]) = ?G rs @ [(q, [p])]"
      using False by (auto simp: r first_seen_snoc e)
    with snoc False mo show ?thesis by (simp add: r record_match_def)
  next
    case True
    have "?G (rs @ [r]) = map (\<lambda>(p', ps). if p' = q then (p', ps @ [p]) else (p', ps)) (?G rs)"
      using True by (auto simp: r first_seen_snoc)
    with snoc True mo show ?thesis by (simp add: r record_match_def)
  qed
qed

lemma automaton_search_table:
  assumes "automaton_ok ps ac" and "[] \<notin> set ps"
  shows "automaton_search ac text = Returns (scan_table ps text)"
  using automaton_search_reports [OF assms] by (simp add: record_match_group scan_table_def)

lemma search_multiple:
  assumes ne: "\<And>s. s \<noteq> [] \<Longrightarrow> cased lower cs s \<noteq> []"
  shows "search lower t (Multiple subs) cs m c =
     Returns
       (if t = [] \<or> patterns_of lower cs subs = [] then Absent
        else multi_result lower cs subs
               (direct_and_limit m c (merged_matches (patterns_of lower cs subs) (cased lower cs t))))"
proof -
  let ?ps = "patterns_of lower cs subs"
  from build_automaton_ok [of ?ps] obtain ac
    where b: "build_automaton ?ps new_automaton = Returns ac" and ok: "automaton_ok ?ps ac"
    by (elim exE conjE) (rule that)
  have "[] \<notin> set ?ps"
  proof
    assume "[] \<in> set ?ps"
    then have "[] \<in> cased lower cs ` {s \<in> set subs. s \<noteq> []}"
      by (simp only: patterns_of_def set_map set_filter)
    then obtain s where "s \<noteq> []" "[] = cased lower cs s"
      by (elim imageE CollectE conjE) (rule that)
    with ne [of s] show False by simp
  qed
  from automaton_search_table [OF ok this]
  have s: "automaton_search ac (cased lower cs t) = Returns (scan_table ?ps (cased lower cs t))" .
  have e: "subs = [] \<Longrightarrow> ?ps = []" by (simp add: patterns_of_def)
  show ?thesis
  proof (cases "t = [] \<or> ?ps = []")
    case True
    then show ?thesis using e
      by (auto simp: search_def Let_def patterns_of_def)
  next
    case False
    with e have n: "subs \<noteq> []" "t \<noteq> []" "?ps \<noteq> []" by blast+
    have "search lower t (Multiple subs) cs m c =
            and_then (build_automaton ?ps new_automaton) (\<lambda>ac.
              and_then (automaton_search ac (cased lower cs t)) (\<lambda>all_matches.
                Returns (multi_result lower cs subs (merged_results m c all_matches))))"
      using n by (simp add: search_def Let_def patterns_of_def multi_result_def)
    also have "\<dots> = Returns (multi_result lower cs subs
                 (merged_results m c (scan_table ?ps (cased lower cs t))))"
      by (simp only: b s and_then_simps)
    finally show ?thesis using n
      by (simp add: merged_results_def merged_matches_def)
  qed
qed
lemma filter_eq_replicate: "filter (\<lambda>q'. q' = q) ps = replicate (count_list ps q) q"
  by (induction ps) simp_all

lemma concat_map_single:
  "concat (map (\<lambda>k. if k = k0 then ys else []) [0..<n]) = (if k0 < n then ys else [])"
  by (induction n) auto

lemma concat_map_Nil: "(\<And>x. x \<in> set xs \<Longrightarrow> f x = []) \<Longrightarrow> concat (map f xs) = []"
  by (induction xs) simp_all

lemma suffix_hits_filter:
  assumes q: "q \<noteq> []"
  shows "filter (\<lambda>q'. q' = q) (suffix_hits ps x) =
           (if suffix q x then replicate (count_list ps q) q else [])"
proof -
  let ?ys = "replicate (count_list ps q) q"
  have 1: "filter (\<lambda>q'. q' = q) (suffix_hits ps x) =
        concat (map (\<lambda>k. if drop k x = q then ?ys else []) [0..<length x])"
    unfolding suffix_hits_def filter_concat map_map
    by (intro arg_cong [where f = concat] map_cong refl)
       (auto simp: filter_eq_replicate [symmetric] filter_empty_conv)
  show ?thesis
  proof (cases "suffix q x")
    case True
    then obtain zs where x: "x = zs @ q" by (auto simp: suffix_def)
    have 2: "map (\<lambda>k. if drop k x = q then ?ys else []) [0..<length x] =
          map (\<lambda>k. if k = length zs then ?ys else []) [0..<length x]"
    proof (intro map_cong refl)
      fix k assume "k \<in> set [0..<length x]"
      then have k: "k < length x" by simp
      have "drop k x = q \<longleftrightarrow> k = length zs"
      proof
        assume "drop k x = q"
        then have "length (drop k x) = length q" by simp
        with k x show "k = length zs" by simp
      qed (simp add: x)
      then show "(if drop k x = q then ?ys else []) = (if k = length zs then ?ys else [])" by simp
    qed
    from q x have 3: "length zs < length x" by simp
    have "filter (\<lambda>q'. q' = q) (suffix_hits ps x) = ?ys"
      unfolding 1 2 concat_map_single using 3 by simp
    with True show ?thesis by simp
  next
    case False
    have "concat (map (\<lambda>k. if drop k x = q then ?ys else []) [0..<length x]) = []"
    proof (rule concat_map_Nil)
      fix k
      have "drop k x \<noteq> q" using False suffix_drop [of k x] by auto
      then show "(if drop k x = q then ?ys else []) = []" by simp
    qed
    with 1 False show ?thesis by simp
  qed
qed

lemma reports_filter:
  assumes q: "q \<noteq> []"
  shows "map snd (filter (\<lambda>r. fst r = q) (reports ps text)) =
         concat (map (\<lambda>i. if suffix q (take (Suc i) text)
                           then replicate (count_list ps q) (int i - int (length q) + 1) else [])
                   [0..<length text])"
proof -
  have inner: "map snd (filter (\<lambda>r. fst r = q) (map (\<lambda>q'. (q', int i - int (length q') + 1)) hs)) =
        map (\<lambda>q'. int i - int (length q') + 1) (filter (\<lambda>q'. q' = q) hs)" for i and hs :: "'a list list"
    by (induction hs) simp_all
  show ?thesis
    unfolding reports_def filter_concat map_concat map_map
    by (intro arg_cong [where f = concat] map_cong refl)
       (simp add: inner suffix_hits_filter [OF q])
qed
lemma concat_map_shift:
  assumes d: "d \<le> n"
    and f0: "\<And>i. i < d \<Longrightarrow> f i = []"
    and fg: "\<And>s. s < n - d \<Longrightarrow> f (s + d) = g s"
    and g0: "\<And>s. n - d \<le> s \<Longrightarrow> s < n \<Longrightarrow> g s = []"
  shows "concat (map f [0..<n]) = concat (map g [0..<n])"
proof -
  from d have 1: "[0..<n] = [0..<d] @ [d..<n]"
    by (metis le_add_diff_inverse upt_add_eq_append zero_le)
  have 2: "[0..<n] = [0..<n - d] @ [n - d..<n]"
    by (metis diff_le_self le_add_diff_inverse upt_add_eq_append zero_le)
  from d have 3: "[d..<n] = map (\<lambda>s. s + d) [0..<n - d]"
    by (simp add: map_add_upt)
  have "concat (map f [0..<n]) = concat (map f [0..<d]) @ concat (map f [d..<n])"
    by (subst 1) simp
  also have "concat (map f [0..<d]) = []" by (rule concat_map_Nil) (simp add: f0)
  also have "concat (map f [d..<n]) = concat (map g [0..<n - d])"
    unfolding 3 map_map by (intro arg_cong [where f = concat] map_cong refl) (simp add: fg)
  finally have l: "concat (map f [0..<n]) = concat (map g [0..<n - d])" by simp
  have "concat (map g [0..<n]) = concat (map g [0..<n - d]) @ concat (map g [n - d..<n])"
    by (subst 2) simp
  also have "concat (map g [n - d..<n]) = []" by (rule concat_map_Nil) (simp add: g0)
  finally show ?thesis using l by simp
qed

lemma suffix_take_occurs:
  assumes i: "i < length text"
  shows "suffix q (take (Suc i) text) \<longleftrightarrow> length q \<le> Suc i \<and> occurs_at text q (Suc i - length q)"
proof
  assume "suffix q (take (Suc i) text)"
  then obtain zs where z: "take (Suc i) text = zs @ q" by (auto simp: suffix_def)
  then have "length (take (Suc i) text) = length zs + length q" by simp
  with i have l: "Suc i = length zs + length q" by simp
  from z have "drop (length zs) (take (Suc i) text) = q" by simp
  then have "take (length q) (drop (length zs) text) = q" using l by (simp add: drop_take)
  with l show "length q \<le> Suc i \<and> occurs_at text q (Suc i - length q)"
    by (simp add: occurs_at_def)
next
  assume a: "length q \<le> Suc i \<and> occurs_at text q (Suc i - length q)"
  then have "take (length q) (drop (Suc i - length q) text) = q" by (simp add: occurs_at_def)
  with a have "drop (Suc i - length q) (take (Suc i) text) = q" by (simp add: drop_take)
  then show "suffix q (take (Suc i) text)" by (metis suffix_drop)
qed

lemma concat_replicate_filter:
  "concat (map (replicate c) (map h (filter P xs))) =
   concat (map (\<lambda>s. if P s then replicate c (h s) else []) xs)"
  by (induction xs) simp_all

lemma positions_reindex:
  assumes q: "q \<noteq> []"
  shows "concat (map (\<lambda>i. if suffix q (take (Suc i) text)
                           then replicate c (int i - int (length q) + 1) else [])
                   [0..<length text]) =
         concat (map (replicate c) (occurrences text q))"
proof (cases "length q \<le> length text")
  case True
  let ?f = "\<lambda>i. if suffix q (take (Suc i) text)
                 then replicate c (int i - int (length q) + 1) else []"
  let ?g = "\<lambda>s. if occurs_at text q s then replicate c (int s) else []"
  from q have m: "0 < length q" by simp
  have "concat (map ?f [0..<length text]) = concat (map ?g [0..<length text])"
  proof (rule concat_map_shift [where d = "length q - 1"])
    from True show "length q - 1 \<le> length text" by simp
  next
    fix i assume i: "i < length q - 1"
    with True have "i < length text" by simp
    moreover from i have "\<not> length q \<le> Suc i" by arith
    ultimately have "\<not> suffix q (take (Suc i) text)" by (simp add: suffix_take_occurs)
    then show "?f i = []" by simp
  next
    fix s assume s: "s < length text - (length q - 1)"
    with m have lt: "s + (length q - 1) < length text" by simp
    from m have e: "Suc (s + (length q - 1)) = s + length q" by simp
    from suffix_take_occurs [OF lt, of q]
    have "suffix q (take (Suc (s + (length q - 1))) text) \<longleftrightarrow> occurs_at text q s"
      unfolding e by simp
    moreover from m have "int (s + (length q - 1)) - int (length q) + 1 = int s" by arith
    ultimately show "?f (s + (length q - 1)) = ?g s" by simp
  next
    fix s assume s: "length text - (length q - 1) \<le> s" "s < length text"
    have "\<not> occurs_at text q s"
    proof
      assume "occurs_at text q s"
      from occurs_at_bound(1) [OF q this] s m show False by simp
    qed
    then show "?g s = []" by simp
  qed
  then show ?thesis unfolding occurrences_def concat_replicate_filter .
next
  case False
  have "concat (map (\<lambda>i. if suffix q (take (Suc i) text)
                 then replicate c (int i - int (length q) + 1) else []) [0..<length text]) = []"
  proof (rule concat_map_Nil)
    fix i assume "i \<in> set [0..<length text]"
    then have i: "i < length text" by simp
    from suffix_take_occurs [OF i, of q] i False
    show "(if suffix q (take (Suc i) text)
                 then replicate c (int i - int (length q) + 1) else []) = []" by simp
  qed
  moreover have "filter (occurs_at text q) [0..<length text] = []"
  proof -
    have "\<not> occurs_at text q s" for s
    proof
      assume "occurs_at text q s"
      from occurs_at_bound(1) [OF q this] False show False by simp
    qed
    then show ?thesis by (simp add: filter_empty_conv)
  qed
  ultimately show ?thesis by (simp add: occurrences_def)
qed

lemma reports_positions:
  "q \<noteq> [] \<Longrightarrow>
   map snd (filter (\<lambda>r. fst r = q) (reports ps text)) =
   concat (map (replicate (count_list ps q)) (occurrences text q))"
  by (simp add: reports_filter positions_reindex)
lemma reports_nonempty: "r \<in> set (reports ps text) \<Longrightarrow> fst r \<noteq> []"
  by (auto simp: reports_def suffix_hits_def)

lemma reports_keys:
  "fst ` set (reports ps text) = {q \<in> set ps. q \<noteq> [] \<and> occurrences text q \<noteq> []}"
proof (intro set_eqI iffI)
  fix q assume "q \<in> fst ` set (reports ps text)"
  then obtain r where r: "r \<in> set (reports ps text)" "fst r = q" by auto
  with reports_nonempty [OF r(1)] have q: "q \<noteq> []" by simp
  from r have "filter (\<lambda>r. fst r = q) (reports ps text) \<noteq> []"
    by (auto simp: filter_empty_conv)
  then have "map snd (filter (\<lambda>r. fst r = q) (reports ps text)) \<noteq> []" by simp
  then have n: "concat (map (replicate (count_list ps q)) (occurrences text q)) \<noteq> []"
    unfolding reports_positions [OF q] .
  have "occurrences text q \<noteq> []"
  proof
    assume "occurrences text q = []"
    then have "concat (map (replicate (count_list ps q)) (occurrences text q)) = []"
      by (simp only: list.map concat.simps)
    with n show False by simp
  qed
  moreover have "count_list ps q \<noteq> 0"
  proof
    assume z: "count_list ps q = 0"
    have "concat (map (replicate (count_list ps q)) (occurrences text q)) = []"
      by (rule concat_map_Nil) (simp add: z)
    with n show False by simp
  qed
  then have "q \<in> set ps" by (auto simp: count_list_0_iff)
  ultimately show "q \<in> {q \<in> set ps. q \<noteq> [] \<and> occurrences text q \<noteq> []}" using q by simp
next
  fix q assume "q \<in> {q \<in> set ps. q \<noteq> [] \<and> occurrences text q \<noteq> []}"
  then have q: "q \<noteq> []" and i: "q \<in> set ps" and o: "occurrences text q \<noteq> []" by simp_all
  from i have "count_list ps q \<noteq> 0" by (simp add: count_list_0_iff)
  with o have "concat (map (replicate (count_list ps q)) (occurrences text q)) \<noteq> []"
    by (cases "occurrences text q") auto
  then have "map snd (filter (\<lambda>r. fst r = q) (reports ps text)) \<noteq> []"
    unfolding reports_positions [OF q] .
  then obtain r where "r \<in> set (reports ps text)" "fst r = q"
    by (auto simp: filter_empty_conv)
  then show "q \<in> fst ` set (reports ps text)" by auto
qed

lemma scan_table_closed:
  "scan_table ps text =
     map (\<lambda>q. (q, concat (map (replicate (count_list ps q)) (occurrences text q))))
       (first_seen (map fst (reports ps text)))"
  unfolding scan_table_def
proof (intro map_cong refl)
  fix q assume "q \<in> set (first_seen (map fst (reports ps text)))"
  then have "q \<in> fst ` set (reports ps text)" by simp
  then have q: "q \<noteq> []" by (auto dest: reports_nonempty)
  show "(q, map snd (filter (\<lambda>r. fst r = q) (reports ps text))) =
             (q, concat (map (replicate (count_list ps q)) (occurrences text q)))"
    by (simp only: reports_positions [OF q])
qed

lemma scan_table_keys:
  "distinct (map fst (scan_table ps text))"
  "set (map fst (scan_table ps text)) = {q \<in> set ps. q \<noteq> [] \<and> occurrences text q \<noteq> []}"
  by (simp_all add: scan_table_def comp_def reports_keys)

lemma scan_table_lookup:
  "map_of (scan_table ps text) q =
     (if q \<in> set ps \<and> q \<noteq> [] \<and> occurrences text q \<noteq> []
      then Some (concat (map (replicate (count_list ps q)) (occurrences text q))) else None)"
proof -
  have "map_of (scan_table ps text) q =
        (if q \<in> set (first_seen (map fst (reports ps text)))
         then Some (concat (map (replicate (count_list ps q)) (occurrences text q))) else None)"
    unfolding scan_table_closed by (simp add: map_of_map_restrict restrict_map_def)
  then show ?thesis by (simp add: reports_keys)
qed
lemma automaton_search_returns:
  assumes ok: "automaton_ok ps ac"
  shows "\<exists>r. automaton_search ac text = Returns r"
proof -
  let ?g = "goto ac"
  let ?I = "\<lambda>k (result :: ('a list \<times> int list) list, state). lsuf_upto ?g (take k text) k state"
  from ok have tg: "trie ?g"
    and fl: "\<forall>t \<in> nodes ?g. t \<noteq> 0 \<longrightarrow> (\<exists>f. fail ac t = Some f \<and> fail_ok ?g t f)"
    by (simp_all add: automaton_ok_def)
  have "\<exists>r. for_each (scan_char ac) (map (\<lambda>i. (int i, text ! i)) [0..<length text]) ([], 0) = Returns r
          \<and> ?I (length text) r"
  proof (rule for_each_upt_gen [where I = ?I])
    from tg show "?I 0 ([], 0)" by (simp add: lsuf_upto_def nodes_def)
  next
    fix k and r :: "('a list \<times> int list) list \<times> int"
    assume k: "k < length text" and I: "?I k r"
    obtain result state where r: "r = (result, state)" by (cases r)
    from I r have ls: "lsuf_upto ?g (take k text) k state" by simp
    have "\<exists>e. follow_fail ?g (fail ac) (text ! k) state = Returns e \<and> e \<in> nodes ?g \<and>
             (map_of ?g (e, text ! k) = None \<longrightarrow> e = 0) \<and>
             lsuf_upto ?g (take k text @ [text ! k]) (Suc k)
               (case map_of ?g (e, text ! k) of Some t \<Rightarrow> t | None \<Rightarrow> 0)"
    proof (rule follow_fail_ok [OF tg ls])
      fix v assume "v \<in> nodes ?g" "v \<noteq> 0"
      with fl show "\<exists>f'. fail ac v = Some f' \<and> fail_ok ?g v f'" by simp
    qed
    then obtain e where ff: "follow_fail ?g (fail ac) (text ! k) state = Returns e"
      and e0: "map_of ?g (e, text ! k) = None \<longrightarrow> e = 0"
      and ls': "lsuf_upto ?g (take k text @ [text ! k]) (Suc k)
                  (case map_of ?g (e, text ! k) of Some t \<Rightarrow> t | None \<Rightarrow> 0)"
      by (elim exE conjE) (rule that)
    define state' where "state' = (case map_of ?g (e, text ! k) of Some t \<Rightarrow> t | None \<Rightarrow> e)"
    from e0 have st: "state' = (case map_of ?g (e, text ! k) of Some t \<Rightarrow> t | None \<Rightarrow> 0)"
      by (auto simp: state'_def split: option.splits)
    from k have tk: "take (Suc k) text = take k text @ [text ! k]" by (simp add: take_Suc_conv_app_nth)
    from ls' st tk have ls2: "lsuf_upto ?g (take (Suc k) text) (Suc k) state'" by simp
    have stt: "(case map_of ?g (e, text ! k) of Some t \<Rightarrow> t | None \<Rightarrow> e) = state'"
      by (simp add: state'_def)
    have "\<exists>result'. scan_char ac (int k, text ! k) (result, state) = Returns (result', state')"
      by (simp add: scan_char_def ff stt Let_def)
    then show "\<exists>s'. scan_char ac (int k, text ! k) r = Returns s' \<and> ?I (Suc k) s'"
      using ls2 r by auto
  qed simp
  then obtain r where a: "for_each (scan_char ac) (map (\<lambda>i. (int i, text ! i)) [0..<length text]) ([], 0) = Returns r"
    by (elim exE conjE) (rule that)
  obtain result state where r: "r = (result, state)" by (cases r)
  show ?thesis unfolding automaton_search_def zip_index a r by simp
qed

lemma search_returns: "\<exists>r. search lower t sub cs m c = Returns r"
proof (cases sub)
  case (Single p)
  then show ?thesis by (simp add: search_single)
next
  case (Multiple subs)
  let ?ps = "map (cased lower cs) (filter (\<lambda>p. p \<noteq> []) subs)"
  from build_automaton_ok [of ?ps] obtain ac
    where b: "build_automaton ?ps new_automaton = Returns ac" and ok: "automaton_ok ?ps ac"
    by (elim exE conjE) (rule that)
  have "\<exists>r. automaton_search ac (cased lower cs t) = Returns r"
    by (rule automaton_search_returns [OF ok])
  then obtain r where s: "automaton_search ac (cased lower cs t) = Returns r"
    by (elim exE) (rule that)
  show ?thesis unfolding Multiple search_def Let_def
    by (simp add: b s)
qed

section \<open>The dispatcher: direction, soft failure, merging, duplicates\<close>

lemma lower_ascii_nonempty: "s \<noteq> [] \<longrightarrow> cased lower_ascii cs s \<noteq> []"
  by (simp add: cased_def lower_ascii_def)

lemma merged_example:
  "patterns_of lower_ascii False [''aba'', ''bba''] = [''aba'', ''bba''] \<and>
   cased lower_ascii False ''ababbababa'' = ''ababbababa'' \<and>
   merged_matches [''aba'', ''bba''] ''ababbababa'' =
     [(0, ''aba''), (3, ''bba''), (5, ''aba''), (7, ''aba'')]"
  by code_simp

text \<open>
  C4, as stated, fails: with \<open>count = 0\<close> the result is \<open>None\<close>, while the first
  \<open>0\<close> entries of the reversed sequence are the empty sequence.
\<close>

theorem search_last_zero_counterexample:
  "search lower_ascii ''aa'' (Single ''a'') False ''first'' None = Returns (Positions [0, 1]) \<and>
   search lower_ascii ''aa'' (Single ''a'') False ''last'' (Some 0) = Returns Absent \<and>
   search lower_ascii ''aa'' (Single ''a'') False ''last'' (Some 0) \<noteq> Returns (Positions (take 0 (rev [0, 1])))"
proof -
  have "occurrences (cased lower_ascii False ''aa'') (cased lower_ascii False ''a'') = [0, 1]"
    and "cased lower_ascii False ''a'' \<noteq> []"
    by code_simp+
  then show ?thesis
    by (simp add: search_single direct_and_limit_def py_take_def positions_result_def)
qed

text \<open>
  C4, amended. \<open>search\<close> returns for \<open>'first'\<close>, whatever the patterns are, and
  without a count the result for \<open>'last'\<close> is the result for \<open>'first'\<close> with every
  sequence of positions reversed. With a count \<open>k \<ge> 0\<close>, a single pattern gives the
  first \<open>k\<close> entries of the reversed sequence, or \<open>None\<close> when there is no such
  entry. For several patterns, where \<open>'first'\<close> without a count returns the
  dictionary that regroups the merged, position-sorted sequence of all matches,
  \<open>'last'\<close> with the count \<open>k\<close> returns the dictionary that regroups the first \<open>k\<close>
  entries of the reversed merged sequence (\<open>None\<close> when no entry is left); here
  \<open>lower\<close> maps no non-empty string to the empty string.
\<close>

theorem search_direction_symmetry:
  "(\<exists>r. search lower t sub cs ''first'' None = Returns r) \<and>
   search lower t sub cs ''last'' None =
     and_then (search lower t sub cs ''first'' None) (\<lambda>r. Returns (reverse_result r)) \<and>
   (0 \<le> k \<longrightarrow>
      search lower t (Single p) cs ''last'' (Some k) =
        and_then (search lower t (Single p) cs ''first'' None)
          (\<lambda>r. Returns (case r of Positions ps \<Rightarrow> positions_result (take (nat k) (rev ps))
                          | other \<Rightarrow> other))) \<and>
   (0 \<le> k \<and> (\<forall>s. s \<noteq> [] \<longrightarrow> cased lower cs s \<noteq> []) \<longrightarrow>
      search lower t (Multiple subs) cs ''first'' None =
        Returns (if t = [] \<or> patterns_of lower cs subs = [] then Absent
                 else multi_result lower cs subs
                        (merged_matches (patterns_of lower cs subs) (cased lower cs t))) \<and>
      search lower t (Multiple subs) cs ''last'' (Some k) =
        Returns (if t = [] \<or> patterns_of lower cs subs = [] then Absent
                 else multi_result lower cs subs
                        (take (nat k)
                           (rev (merged_matches (patterns_of lower cs subs) (cased lower cs t))))))"
proof (intro conjI impI)
  show "\<exists>r. search lower t sub cs ''first'' None = Returns r" by (rule search_returns)
  show "search lower t sub cs ''last'' None =
     and_then (search lower t sub cs ''first'' None) (\<lambda>r. Returns (reverse_result r))"
    by (rule search_last_reverse)
next
  assume "0 \<le> k"
  then show "search lower t (Single p) cs ''last'' (Some k) =
        and_then (search lower t (Single p) cs ''first'' None)
          (\<lambda>r. Returns (case r of Positions ps \<Rightarrow> positions_result (take (nat k) (rev ps))
                          | other \<Rightarrow> other))"
    by (auto simp: search_single direct_and_limit_def py_take_nonneg positions_result_def)
next
  assume a: "0 \<le> k \<and> (\<forall>s. s \<noteq> [] \<longrightarrow> cased lower cs s \<noteq> [])"
  then have ne: "\<And>s. s \<noteq> [] \<Longrightarrow> cased lower cs s \<noteq> []" by simp
  show "search lower t (Multiple subs) cs ''first'' None =
        Returns (if t = [] \<or> patterns_of lower cs subs = [] then Absent
                 else multi_result lower cs subs
                        (merged_matches (patterns_of lower cs subs) (cased lower cs t)))"
    using search_multiple [where m = "''first''" and c = None, OF ne]
    by (simp add: direct_and_limit_def)
  from a have k: "0 \<le> k" by simp
  show "search lower t (Multiple subs) cs ''last'' (Some k) =
        Returns (if t = [] \<or> patterns_of lower cs subs = [] then Absent
                 else multi_result lower cs subs
                        (take (nat k)
                           (rev (merged_matches (patterns_of lower cs subs) (cased lower cs t)))))"
    using search_multiple [where m = "''last''" and c = "Some k", OF ne] k
    by (simp add: direct_and_limit_def py_take_nonneg)
qed

theorem search_direction_symmetry_witness:
  "(0::int) \<le> 2 \<and>
   search lower_ascii ''ababbababa'' (Multiple [''aba'', ''bba'']) False ''first'' None =
     Returns (Mapping [(''aba'', Some [0, 5, 7]), (''bba'', Some [3])]) \<and>
   search lower_ascii ''ababbababa'' (Multiple [''aba'', ''bba'']) False ''last'' None =
     Returns (Mapping [(''aba'', Some [7, 5, 0]), (''bba'', Some [3])]) \<and>
   search lower_ascii ''ababbababa'' (Multiple [''aba'', ''bba'']) False ''last'' (Some 2) =
     Returns (Mapping [(''aba'', Some [7, 5]), (''bba'', None)]) \<and>
   search lower_ascii ''ababbababa'' (Single ''aba'') False ''first'' None = Returns (Positions [0, 5, 7]) \<and>
   search lower_ascii ''ababbababa'' (Single ''aba'') False ''last'' (Some 2) = Returns (Positions [7, 5])"
proof -
  have l: "\<forall>s. s \<noteq> [] \<longrightarrow> cased lower_ascii False s \<noteq> []"
    by (simp add: lower_ascii_nonempty)
  have f: "search lower_ascii ''ababbababa'' (Single ''aba'') False ''first'' None = Returns (Positions [0, 5, 7])"
    using occurrences_example
    by (simp add: search_single direct_and_limit_def positions_result_def) code_simp
  have r1: "multi_result lower_ascii False [''aba'', ''bba'']
              [(0, ''aba''), (3, ''bba''), (5, ''aba''), (7, ''aba'')] =
            Mapping [(''aba'', Some [0, 5, 7]), (''bba'', Some [3])]"
    by code_simp
  have r2: "multi_result lower_ascii False [''aba'', ''bba'']
              [(7, ''aba''), (5, ''aba'')] =
            Mapping [(''aba'', Some [7, 5]), (''bba'', None)]"
    by code_simp
  note s = search_direction_symmetry
    [of lower_ascii "''ababbababa''" "Multiple [''aba'', ''bba'']" False 2 "''aba''" "[''aba'', ''bba'']"]
  from s l have m1: "search lower_ascii ''ababbababa'' (Multiple [''aba'', ''bba'']) False ''first'' None =
     Returns (Mapping [(''aba'', Some [0, 5, 7]), (''bba'', Some [3])])"
    by (simp add: merged_example r1)
  from s l have m3: "search lower_ascii ''ababbababa'' (Multiple [''aba'', ''bba'']) False ''last'' (Some 2) =
     Returns (Mapping [(''aba'', Some [7, 5]), (''bba'', None)])"
    by (simp add: merged_example r2)
  from s have "search lower_ascii ''ababbababa'' (Multiple [''aba'', ''bba'']) False ''last'' None =
     and_then (search lower_ascii ''ababbababa'' (Multiple [''aba'', ''bba'']) False ''first'' None)
       (\<lambda>r. Returns (reverse_result r))" by (elim conjE)
  then have m2: "search lower_ascii ''ababbababa'' (Multiple [''aba'', ''bba'']) False ''last'' None =
     Returns (Mapping [(''aba'', Some [7, 5, 0]), (''bba'', Some [3])])"
    by (simp add: m1)
  from search_direction_symmetry [of lower_ascii "''ababbababa''" "Single ''aba''" False 2 "''aba''" "[]"]
  have s2: "search lower_ascii ''ababbababa'' (Single ''aba'') False ''last'' (Some 2) = Returns (Positions [7, 5])"
    by (simp add: f positions_result_def)
  from m1 m2 m3 f s2 show ?thesis by simp
qed


end
